theory Spec2Isabelle
  imports Main "HOL-Library.Word" "HOL-Library.AList" "HOL-Library.Multiset"
begin

unbundle bit_operations_syntax

section \<open>Duplicate line detection (chapter01/exercises/ex3.go)\<close>

text \<open>
  The development follows \<^verbatim>\<open>ex3.go\<close>: the key normalizer \<^verbatim>\<open>getKey\<close>, the reader
  \<^verbatim>\<open>collectLines\<close>, the aggregating task and report of \<^verbatim>\<open>DupDetectFiles\<close>, the sorted
  single-file path \<^verbatim>\<open>DupDetectSorted\<close> and the stdin path \<^verbatim>\<open>DupDetect\<close>.

  A Go \<^verbatim>\<open>string\<close> is a byte sequence and \<^verbatim>\<open>len\<close> counts bytes, as \<^typ>\<open>string\<close> and
  \<^const>\<open>length\<close> do here. A Go \<^verbatim>\<open>int\<close> is modelled as \<^typ>\<open>int\<close>: the only arithmetic is
  adding one per line read, so a counter cannot reach \<open>2^63\<close> on an input that exists.
  A Go \<^verbatim>\<open>map\<close> is an association list with distinct keys, updated with
  \<^const>\<open>AList.update\<close> and read with \<^const>\<open>map_of\<close>; ranging over it visits the entries in
  list order, which is one of the orders the Go runtime may choose, so statements about
  what is printed are made about the set of printed items.
\<close>

subsection \<open>SHA-256 and the hexadecimal verb of the Go standard library\<close>

text \<open>
  \<^verbatim>\<open>crypto/sha256.Sum256\<close> and \<^verbatim>\<open>fmt.Sprintf("%x", ...)\<close> belong to the Go standard
  library. They are written out after FIPS 180-4 so that \<^verbatim>\<open>hashString\<close> computes.
\<close>

type_synonym byte = "8 word"
type_synonym word32 = "32 word"
type_synonym sha_state =
  "word32 \<times> word32 \<times> word32 \<times> word32 \<times> word32 \<times> word32 \<times> word32 \<times> word32"

definition sha_K :: "word32 list" where
  "sha_K = concat
    [[0x428a2f98, 0x71374491, 0xb5c0fbcf, 0xe9b5dba5, 0x3956c25b, 0x59f111f1, 0x923f82a4, 0xab1c5ed5],
     [0xd807aa98, 0x12835b01, 0x243185be, 0x550c7dc3, 0x72be5d74, 0x80deb1fe, 0x9bdc06a7, 0xc19bf174],
     [0xe49b69c1, 0xefbe4786, 0x0fc19dc6, 0x240ca1cc, 0x2de92c6f, 0x4a7484aa, 0x5cb0a9dc, 0x76f988da],
     [0x983e5152, 0xa831c66d, 0xb00327c8, 0xbf597fc7, 0xc6e00bf3, 0xd5a79147, 0x06ca6351, 0x14292967],
     [0x27b70a85, 0x2e1b2138, 0x4d2c6dfc, 0x53380d13, 0x650a7354, 0x766a0abb, 0x81c2c92e, 0x92722c85],
     [0xa2bfe8a1, 0xa81a664b, 0xc24b8b70, 0xc76c51a3, 0xd192e819, 0xd6990624, 0xf40e3585, 0x106aa070],
     [0x19a4c116, 0x1e376c08, 0x2748774c, 0x34b0bcb5, 0x391c0cb3, 0x4ed8aa4a, 0x5b9cca4f, 0x682e6ff3],
     [0x748f82ee, 0x78a5636f, 0x84c87814, 0x8cc70208, 0x90befffa, 0xa4506ceb, 0xbef9a3f7, 0xc67178f2]]"

definition sha_H0 :: sha_state where
  "sha_H0 =
    (0x6a09e667, 0xbb67ae85, 0x3c6ef372, 0xa54ff53a, 0x510e527f, 0x9b05688c, 0x1f83d9ab, 0x5be0cd19)"

definition sha_Ch :: "word32 \<Rightarrow> word32 \<Rightarrow> word32 \<Rightarrow> word32" where
  "sha_Ch x y z = (x AND y) XOR (NOT x AND z)"

definition sha_Maj :: "word32 \<Rightarrow> word32 \<Rightarrow> word32 \<Rightarrow> word32" where
  "sha_Maj x y z = (x AND y) XOR (x AND z) XOR (y AND z)"

definition sha_bsig0 :: "word32 \<Rightarrow> word32" where
  "sha_bsig0 x = word_rotr 2 x XOR word_rotr 13 x XOR word_rotr 22 x"

definition sha_bsig1 :: "word32 \<Rightarrow> word32" where
  "sha_bsig1 x = word_rotr 6 x XOR word_rotr 11 x XOR word_rotr 25 x"

definition sha_ssig0 :: "word32 \<Rightarrow> word32" where
  "sha_ssig0 x = word_rotr 7 x XOR word_rotr 18 x XOR drop_bit 3 x"

definition sha_ssig1 :: "word32 \<Rightarrow> word32" where
  "sha_ssig1 x = word_rotr 17 x XOR word_rotr 19 x XOR drop_bit 10 x"

text \<open>Padding: a one bit, zero bytes up to 56 modulo 64, the bit length as 64 bits, big endian.\<close>

definition sha_be64 :: "64 word \<Rightarrow> byte list" where
  "sha_be64 n = map (\<lambda>i. ucast (drop_bit (8 * (7 - i)) n)) [0..<8]"

definition sha_pad :: "byte list \<Rightarrow> byte list" where
  "sha_pad bs =
     bs @ [0x80] @ replicate ((64 - (length bs + 9) mod 64) mod 64) 0 @ sha_be64 (of_nat (8 * length bs))"

definition sha_blocks :: "byte list \<Rightarrow> byte list list" where
  "sha_blocks bs = map (\<lambda>i. take 64 (drop (64 * i) bs)) [0..<length bs div 64]"

fun sha_words :: "byte list \<Rightarrow> word32 list" where
  "sha_words (a # b # c # d # rest) =
     (push_bit 24 (ucast a) OR push_bit 16 (ucast b) OR push_bit 8 (ucast c) OR ucast d)
       # sha_words rest"
| "sha_words _ = []"

fun sha_extend :: "nat \<Rightarrow> word32 list \<Rightarrow> word32 list" where
  "sha_extend 0 w = w"
| "sha_extend (Suc n) w =
     (let t = length w
      in sha_extend n
           (w @ [sha_ssig1 (w ! (t - 2)) + w ! (t - 7) + sha_ssig0 (w ! (t - 15)) + w ! (t - 16)]))"

fun sha_round :: "sha_state \<Rightarrow> word32 \<times> word32 \<Rightarrow> sha_state" where
  "sha_round (a, b, c, d, e, f, g, h) (k, w) =
     (let t1 = h + sha_bsig1 e + sha_Ch e f g + k + w;
          t2 = sha_bsig0 a + sha_Maj a b c
      in (t1 + t2, a, b, c, d + t1, e, f, g))"

fun sha_add :: "sha_state \<Rightarrow> sha_state \<Rightarrow> sha_state" where
  "sha_add (a, b, c, d, e, f, g, h) (a', b', c', d', e', f', g', h') =
     (a + a', b + b', c + c', d + d', e + e', f + f', g + g', h + h')"

definition sha_compress :: "sha_state \<Rightarrow> byte list \<Rightarrow> sha_state" where
  "sha_compress hs block =
     sha_add hs (foldl sha_round hs (zip sha_K (sha_extend 48 (sha_words block))))"

definition sha_be32 :: "word32 \<Rightarrow> byte list" where
  "sha_be32 w = [ucast (drop_bit 24 w), ucast (drop_bit 16 w), ucast (drop_bit 8 w), ucast w]"

fun sha_digest :: "sha_state \<Rightarrow> byte list" where
  "sha_digest (a, b, c, d, e, f, g, h) =
     sha_be32 a @ sha_be32 b @ sha_be32 c @ sha_be32 d
       @ sha_be32 e @ sha_be32 f @ sha_be32 g @ sha_be32 h"

definition Sum256 :: "byte list \<Rightarrow> byte list" where
  "Sum256 bs = sha_digest (foldl sha_compress sha_H0 (sha_blocks (sha_pad bs)))"

definition hex_digit :: "nat \<Rightarrow> char" where
  "hex_digit n = ''0123456789abcdef'' ! (n mod 16)"

definition hex_bytes :: "byte list \<Rightarrow> string" where
  "hex_bytes bs = concat (map (\<lambda>b. [hex_digit (unat b div 16), hex_digit (unat b mod 16)]) bs)"

definition bytes_of :: "string \<Rightarrow> byte list" where
  "bytes_of s = map (\<lambda>c. of_nat (of_char c)) s"

subsection \<open>Key normalizer\<close>

definition hashString :: "string \<Rightarrow> string" where
  "hashString s = hex_bytes (Sum256 (bytes_of s))"

definition getKey :: "string \<Rightarrow> string" where
  "getKey s = (if length s < 32 then s else hashString s)"

subsection \<open>Data of the program\<close>

record rawLineData =
  lineText :: string
  fileName :: string
  lineNum :: int

record lineData =
  locations :: "(string \<times> int list) list"
  count :: int

text \<open>
  What the operating system hands to the task that reads one argument of the program:
  the name, whether \<^verbatim>\<open>os.Open\<close> succeeds on it (not asked for the name
  \<^verbatim>\<open>stdin\<close>, which is not opened), and the lines its scanner yields until
  \<^verbatim>\<open>Scan\<close> returns false. Each reader has its own, so that a name given twice is
  two readers.
\<close>

record source =
  srcName :: string
  srcOpens :: bool
  srcLines :: "string list"

text \<open>
  What a run writes to standard output, one item per \<^verbatim>\<open>Printf\<close>/\<^verbatim>\<open>Println\<close>; an
  \<open>Entry\<close> stands for the line \<^verbatim>\<open>"%d\t%s\n"\<close> and the lines
  \<^verbatim>\<open>"\tFileName: %s, lineNums: %+v\n"\<close> printed under it. \<open>Panic\<close> is a run-time panic,
  which ends the run: an index out of range in the report of the sorted path, or a write
  into a nil map in its loop.
\<close>

datatype event =
    OpenError string
  | Separator
  | Blank
  | Entry int string "(string \<times> int list) list"
  | SortedEntry int string int int
  | StdinEntry int string "int list"
  | Panic

text \<open>Reading a key that a Go map may lack yields the zero value, here the nil slice.\<close>

definition lineNums :: "(string \<times> int list) list \<Rightarrow> string \<Rightarrow> int list" where
  "lineNums locs f = (case map_of locs f of None \<Rightarrow> [] | Some ns \<Rightarrow> ns)"

subsection \<open>Source reader\<close>

fun scanLines :: "string \<Rightarrow> int \<Rightarrow> string list \<Rightarrow> rawLineData list" where
  "scanLines f n [] = []"
| "scanLines f n (inputText # rest) =
     \<lparr>lineText = getKey inputText, fileName = f, lineNum = n + 1\<rparr> # scanLines f (n + 1) rest"

text \<open>The reader returns what it prints and the records it sends, in sending order.\<close>

definition collectLines :: "source \<Rightarrow> event list \<times> rawLineData list" where
  "collectLines src =
     (if srcName src = ''stdin'' then ([], scanLines (srcName src) 0 (srcLines src))
      else if \<not> srcOpens src then ([OpenError (srcName src)], [])
      else ([], scanLines (srcName src) 0 (srcLines src)))"

subsection \<open>The unbuffered channel\<close>

text \<open>
  Each reader task sends its records in order; the aggregating task receives one record
  at a time. A schedule names, step by step, the reader whose send is received next; a
  step naming a reader with nothing left to send is skipped, and when the schedule is
  used up the readers still holding records are drained in turn.
\<close>

fun deliver :: "nat list \<Rightarrow> 'a list list \<Rightarrow> 'a list" where
  "deliver [] qs = concat qs"
| "deliver (i # sched) qs =
     (if i < length qs then
        (case qs ! i of
           [] \<Rightarrow> deliver sched qs
         | r # rest \<Rightarrow> r # deliver sched (qs[i := rest]))
      else deliver sched qs)"

text \<open>
  The interleavings themselves: the run ends when no reader holds a record, and at each
  step the aggregating task receives the next record of some reader.
\<close>

inductive interleaving :: "'a list list \<Rightarrow> 'a list \<Rightarrow> bool" where
  finished: "\<forall>q\<in>set qs. q = [] \<Longrightarrow> interleaving qs []"
| received: "i < length qs \<Longrightarrow> qs ! i = r # rest \<Longrightarrow> interleaving (qs[i := rest]) rs \<Longrightarrow>
     interleaving qs (r # rs)"

code_pred interleaving .

subsection \<open>Aggregator\<close>

definition absorb :: "(string \<times> lineData) list \<Rightarrow> rawLineData \<Rightarrow> (string \<times> lineData) list" where
  "absorb counts r =
     (case map_of counts (lineText r) of
        None \<Rightarrow>
          AList.update (lineText r)
            \<lparr>locations = [(fileName r, [lineNum r])], count = 0 + 1\<rparr> counts
      | Some lineDatum \<Rightarrow>
          AList.update (lineText r)
            \<lparr>locations =
               AList.update (fileName r)
                 (lineNums (locations lineDatum) (fileName r) @ [lineNum r])
                 (locations lineDatum),
             count = count lineDatum + 1\<rparr> counts)"

definition aggregate :: "rawLineData list \<Rightarrow> (string \<times> lineData) list" where
  "aggregate rs = foldl absorb [] rs"

definition report :: "int \<Rightarrow> (string \<times> lineData) list \<Rightarrow> event list" where
  "report threshold counts =
     map (\<lambda>(line, lineDatum). Entry (count lineDatum) line (locations lineDatum))
       (filter (\<lambda>(line, lineDatum). count lineDatum > threshold) counts)"

text \<open>
  The multi-source body of \<^verbatim>\<open>DupDetectFiles\<close>: the readers' messages come before the
  separator, because the separator is printed only once every reader is done. They are
  listed in argument order, one of the orders in which the tasks may print them.
\<close>

definition arrivals :: "nat list \<Rightarrow> source list \<Rightarrow> rawLineData list" where
  "arrivals sched files = deliver sched (map (\<lambda>f. snd (collectLines f)) files)"

definition detectMulti :: "nat list \<Rightarrow> int \<Rightarrow> source list \<Rightarrow> event list" where
  "detectMulti sched threshold files =
     concat (map (\<lambda>f. fst (collectLines f)) files)
       @ Separator # report threshold (aggregate (arrivals sched files))"

subsection \<open>Standard input path\<close>

definition stdinStep :: "(string \<times> lineData) list \<times> int \<Rightarrow> string \<Rightarrow> (string \<times> lineData) list \<times> int" where
  "stdinStep st inputText =
     (case st of (counts, i) \<Rightarrow>
        (case map_of counts inputText of
           None \<Rightarrow>
             (AList.update inputText \<lparr>locations = [(''stdin'', [i])], count = 0 + 1\<rparr> counts, i + 1)
         | Some lineDatum \<Rightarrow>
             (AList.update inputText
                \<lparr>locations =
                   AList.update ''stdin'' (lineNums (locations lineDatum) ''stdin'' @ [i])
                     (locations lineDatum),
                 count = count lineDatum + 1\<rparr> counts, i + 1)))"

definition DupDetect :: "int \<Rightarrow> string list \<Rightarrow> event list" where
  "DupDetect threshold stdin =
     Blank #
       map (\<lambda>(line, lineDatum). StdinEntry (count lineDatum) line (lineNums (locations lineDatum) ''stdin''))
         (filter (\<lambda>(line, lineDatum). count lineDatum > threshold)
            (fst (foldl stdinStep ([], 1) stdin)))"

subsection \<open>Sorted single-file path\<close>

text \<open>
  The source uses the variable \<^verbatim>\<open>prevLineDatum\<close> in the two statements that close a
  run, but neither declares nor assigns it. What the variable holds when the loop starts
  is therefore a parameter of the model: \<open>None\<close> when its \<^verbatim>\<open>locations\<close> map is nil, as
  for a variable declared without a value, and \<open>Some d\<close> when it holds a map with the
  content \<open>locations d\<close> and the count \<open>count d\<close>.

  A Go map value is a reference. The statement
  \<^verbatim>\<open>prevLineDatum.locations[fileName] = append(...)\<close> writes into the map that the
  variable holds, and \<^verbatim>\<open>counts[prevInputText] = prevLineDatum\<close> stores a copy of the
  variable, which holds the same map: every entry stored that way shows each later
  write. The loop state lists the keys of these entries and keeps their locations equal
  to the map of the variable. Writing into a nil map is a run-time panic; it ends the
  run, and no further line is read.

  The loop state is the mapping, the line counter \<^verbatim>\<open>i\<close>, \<^verbatim>\<open>prevInputText\<close>, the
  variable \<^verbatim>\<open>prevLineDatum\<close>, the keys of the entries sharing its map, and whether the
  loop has panicked.
\<close>

type_synonym sortedState =
  "(string \<times> lineData) list \<times> int \<times> string \<times> lineData option \<times> string list \<times> bool"

definition sortedStep :: "string \<Rightarrow> sortedState \<Rightarrow> string \<Rightarrow> sortedState" where
  "sortedStep f st inputText =
     (case st of (counts, i, prevInputText, prevLineDatum, shared, panicked) \<Rightarrow>
        if panicked then st
        else
          (case map_of counts inputText of
             None \<Rightarrow>
               (if prevInputText \<noteq> '''' then
                  (case prevLineDatum of
                     None \<Rightarrow> (counts, i, prevInputText, prevLineDatum, shared, True)
                   | Some p \<Rightarrow>
                       (let p' = p\<lparr>locations :=
                                     AList.update f (lineNums (locations p) f @ [i - 1]) (locations p)\<rparr>;
                            shared' = prevInputText # shared;
                            counts' =
                              map (\<lambda>(k, d). if k \<in> set shared'
                                              then (k, d\<lparr>locations := locations p'\<rparr>) else (k, d))
                                (AList.update prevInputText p' counts)
                        in (AList.update inputText \<lparr>locations = [(f, [i])], count = 0 + 1\<rparr> counts',
                            i + 1, inputText, Some p', shared', False)))
                else
                  (AList.update inputText \<lparr>locations = [(f, [i])], count = 0 + 1\<rparr> counts,
                   i + 1, inputText, prevLineDatum, shared, False))
           | Some lineDatum \<Rightarrow>
               (AList.update inputText (lineDatum\<lparr>count := count lineDatum + 1\<rparr>) counts,
                i + 1, prevInputText, prevLineDatum, shared, False)))"

text \<open>The parts of the loop state that the report and the properties read.\<close>

definition sharedKeys :: "sortedState \<Rightarrow> string list" where
  "sharedKeys st = (case st of (counts, i, prevInputText, p, shared, panicked) \<Rightarrow> shared)"

definition hasPanicked :: "sortedState \<Rightarrow> bool" where
  "hasPanicked st = (case st of (counts, i, prevInputText, p, shared, panicked) \<Rightarrow> panicked)"

definition sortedLoop :: "lineData option \<Rightarrow> string \<Rightarrow> string list \<Rightarrow> sortedState" where
  "sortedLoop prevLineDatum f ls = foldl (sortedStep f) ([], 1, '''', prevLineDatum, [], False) ls"

text \<open>
  The report reads \<^verbatim>\<open>locations[fileName][0]\<close> and \<^verbatim>\<open>locations[fileName][1]\<close> of every
  entry over the threshold; with fewer than two line numbers stored the read is out of
  range and the run panics.
\<close>

fun reportSorted :: "int \<Rightarrow> string \<Rightarrow> (string \<times> lineData) list \<Rightarrow> event list" where
  "reportSorted threshold f [] = []"
| "reportSorted threshold f ((line, lineDatum) # rest) =
     (if count lineDatum > threshold then
        (case lineNums (locations lineDatum) f of
           s # e # _ \<Rightarrow> SortedEntry (count lineDatum) line s e # reportSorted threshold f rest
         | _ \<Rightarrow> [Panic])
      else reportSorted threshold f rest)"

definition DupDetectSorted :: "lineData option \<Rightarrow> int \<Rightarrow> source \<Rightarrow> event list" where
  "DupDetectSorted prevLineDatum threshold src =
     (if \<not> srcOpens src then [OpenError (srcName src)]
      else
        (case sortedLoop prevLineDatum (srcName src) (srcLines src) of
           (counts, i, prevInputText, p, shared, panicked) \<Rightarrow>
             if panicked then [Panic]
             else Blank # reportSorted threshold (srcName src) counts))"

subsection \<open>Entry point\<close>

definition DupDetectFiles ::
  "lineData option \<Rightarrow> nat list \<Rightarrow> string list \<Rightarrow> int \<Rightarrow> bool \<Rightarrow> source list \<Rightarrow> event list" where
  "DupDetectFiles prevLineDatum sched stdin threshold isSorted files =
     (case files of
        [] \<Rightarrow> DupDetect threshold stdin
      | f # _ \<Rightarrow>
          if isSorted then DupDetectSorted prevLineDatum threshold f
          else detectMulti sched threshold files)"

subsection \<open>The input of a run\<close>

text \<open>
  The input sources of a run: the lines of standard input and, for every name, the
  lines of the regular file of that name when it can be opened. A reader that opens a
  named file reads all its lines, whoever else reads the file. A reader of standard
  input reads all its lines when it is the only one; when \<^verbatim>\<open>stdin\<close> is named more
  than once the readers wrap the one stream \<^verbatim>\<open>os.Stdin\<close>, and what each of them
  obtains is not determined by the input. \<open>reading w names files\<close> says that \<open>files\<close> is
  what the readers started for \<open>names\<close> can be handed when the input is \<open>w\<close>.
\<close>

record world =
  stdinLines :: "string list"
  openFile :: "string \<Rightarrow> string list option"

definition reading :: "world \<Rightarrow> string list \<Rightarrow> source list \<Rightarrow> bool" where
  "reading w names files \<longleftrightarrow>
     map srcName files = names \<and>
     (\<forall>src\<in>set files.
        if srcName src = ''stdin''
        then (count_list names ''stdin'' = 1 \<longrightarrow> srcLines src = stdinLines w)
        else (case openFile w (srcName src) of
                None \<Rightarrow> \<not> srcOpens src
              | Some ls \<Rightarrow> srcOpens src \<and> srcLines src = ls))"

subsection \<open>Quantities the properties speak of\<close>

text \<open>
  The records that the readers of a run send, whatever the order of their arrival; the
  line numbers of one key in one source among a sequence of records; the number of line
  numbers an entry stores; and a named file on which \<^verbatim>\<open>os.Open\<close> fails.
\<close>

definition emitted :: "source list \<Rightarrow> rawLineData list" where
  "emitted files = concat (map (\<lambda>f. snd (collectLines f)) files)"

definition linesAt :: "string \<Rightarrow> string \<Rightarrow> rawLineData list \<Rightarrow> int list" where
  "linesAt k f rs = map lineNum (filter (\<lambda>r. lineText r = k \<and> fileName r = f) rs)"

definition stored :: "(string \<times> int list) list \<Rightarrow> int" where
  "stored locs = (\<Sum>(f, ns) \<leftarrow> locs. int (length ns))"

definition openFails :: "source \<Rightarrow> bool" where
  "openFails src = (srcName src \<noteq> ''stdin'' \<and> \<not> srcOpens src)"

subsection \<open>Example inputs\<close>

definition srcA :: source where
  "srcA = \<lparr>srcName = ''A'', srcOpens = True, srcLines = [''x'', ''y'', ''x'']\<rparr>"

definition srcB :: source where
  "srcB = \<lparr>srcName = ''B'', srcOpens = True, srcLines = [''x'']\<rparr>"

definition srcMissing :: source where
  "srcMissing = \<lparr>srcName = ''missing.txt'', srcOpens = False, srcLines = []\<rparr>"

text \<open>
  A value of \<^verbatim>\<open>prevLineDatum\<close> with an empty, non-nil map and count 5, and a file of
  three runs of one line each.
\<close>

definition declFive :: "lineData option" where
  "declFive = Some \<lparr>locations = [], count = 5\<rparr>"

definition srcRuns :: source where
  "srcRuns = \<lparr>srcName = ''sortedc'', srcOpens = True, srcLines = [''a'', ''b'', ''c'']\<rparr>"

definition srcLong :: source where
  "srcLong = \<lparr>srcName = ''L'', srcOpens = True,
               srcLines = [''0123456789abcdef0123456789abcdef'', ''0123456789abcdef0123456789abcdef'']\<rparr>"

definition srcC :: source where
  "srcC = \<lparr>srcName = ''C'', srcOpens = True, srcLines = [''x'', ''x'']\<rparr>"

text \<open>
  An input in which the files A and B exist, and an input with two lines on standard
  input, together with three ways in which readers of standard input can be served.
\<close>

definition worldAB :: world where
  "worldAB = \<lparr>stdinLines = [],
              openFile = (\<lambda>name. if name = ''A'' then Some [''x'', ''y'', ''x'']
                                 else if name = ''B'' then Some [''x''] else None)\<rparr>"

definition worldStdin :: world where
  "worldStdin = \<lparr>stdinLines = [''x'', ''x''], openFile = (\<lambda>name. None)\<rparr>"

definition srcStdinAll :: source where
  "srcStdinAll = \<lparr>srcName = ''stdin'', srcOpens = True, srcLines = [''x'', ''x'']\<rparr>"

definition srcStdinHalf :: source where
  "srcStdinHalf = \<lparr>srcName = ''stdin'', srcOpens = True, srcLines = [''x'']\<rparr>"

definition srcStdinNone :: source where
  "srcStdinNone = \<lparr>srcName = ''stdin'', srcOpens = True, srcLines = []\<rparr>"

section \<open>Properties\<close>

subsection \<open>Key normalizer\<close>

lemma length_hex_bytes: "length (hex_bytes bs) = 2 * length bs"
  by (induction bs) (simp_all add: hex_bytes_def)

lemma length_sha_digest: "length (sha_digest st) = 32"
  by (induction st rule: sha_digest.induct) (simp add: sha_be32_def)

lemma length_hashString: "length (hashString s) = 64"
  by (simp add: hashString_def Sum256_def length_hex_bytes length_sha_digest)

text \<open>
  C3. A line shorter than 32 bytes is its own key. A line of 32 bytes or more has as key
  the hexadecimal encoding of the SHA-256 digest of its bytes, which is 64 characters
  long whatever the line.
\<close>

theorem getKey_contract:
  "(length s < 32 \<longrightarrow> getKey s = s) \<and>
   (32 \<le> length s \<longrightarrow> getKey s = hex_bytes (Sum256 (bytes_of s)) \<and> length (getKey s) = 64)"
  by (simp add: getKey_def length_hashString) (simp add: hashString_def)

text \<open>At the boundary, 31 bytes are kept, 32 and 33 bytes are hashed.\<close>

theorem getKey_contract_witness:
  "getKey ''0123456789abcdef0123456789abcde'' = ''0123456789abcdef0123456789abcde'' \<and>
   getKey ''0123456789abcdef0123456789abcdef''
     = hex_bytes (Sum256 (bytes_of ''0123456789abcdef0123456789abcdef'')) \<and>
   length (getKey ''0123456789abcdef0123456789abcdef'') = 64 \<and>
   getKey ''0123456789abcdef0123456789abcdef0''
     = hex_bytes (Sum256 (bytes_of ''0123456789abcdef0123456789abcdef0'')) \<and>
   length (getKey ''0123456789abcdef0123456789abcdef0'') = 64"
proof -
  have short: "length ''0123456789abcdef0123456789abcde'' < 32"
    by simp
  have long: "32 \<le> length ''0123456789abcdef0123456789abcdef''"
    "32 \<le> length ''0123456789abcdef0123456789abcdef0''"
    by simp_all
  from short long
    getKey_contract [of "''0123456789abcdef0123456789abcde''"]
    getKey_contract [of "''0123456789abcdef0123456789abcdef''"]
    getKey_contract [of "''0123456789abcdef0123456789abcdef0''"]
  show ?thesis by blast
qed

subsection \<open>Sorted single-file path\<close>

lemmas sorted_run_defs =
  DupDetectSorted_def sortedLoop_def sortedStep_def lineNums_def

lemma lineNums_update: "lineNums (AList.update f ns locs) f = ns"
  by (simp add: lineNums_def update_conv')

text \<open>
  C5. The six lines a, a, a, b, b, c with threshold 1 do not give the entries a with
  count 3 from line 1 to line 3 and b with count 2 from line 4 to line 5, whatever
  \<^verbatim>\<open>prevLineDatum\<close> holds. When its map is nil the run panics at line 4, where the run of
  a is to be closed. Otherwise the entries of a and of b are both overwritten by copies
  of the variable, so they carry the same count and the same line numbers.
\<close>

theorem sorted_worked_example_not_produced:
  "DupDetectSorted None 1
      \<lparr>srcName = f, srcOpens = True, srcLines = [''a'', ''a'', ''a'', ''b'', ''b'', ''c'']\<rparr>
     = [Panic] \<and>
   set (DupDetectSorted prevLineDatum 1
          \<lparr>srcName = f, srcOpens = True, srcLines = [''a'', ''a'', ''a'', ''b'', ''b'', ''c'']\<rparr>)
     \<noteq> {Blank, SortedEntry 3 ''a'' 1 3, SortedEntry 2 ''b'' 4 5}"
proof
  show "DupDetectSorted None 1
      \<lparr>srcName = f, srcOpens = True, srcLines = [''a'', ''a'', ''a'', ''b'', ''b'', ''c'']\<rparr>
     = [Panic]"
    by (simp add: sorted_run_defs)
  let ?out = "DupDetectSorted prevLineDatum 1
          \<lparr>srcName = f, srcOpens = True, srcLines = [''a'', ''a'', ''a'', ''b'', ''b'', ''c'']\<rparr>"
  show "set ?out \<noteq> {Blank, SortedEntry 3 ''a'' 1 3, SortedEntry 2 ''b'' 4 5}"
  proof (cases prevLineDatum)
    case None
    then have "?out = [Panic]"
      by (simp add: sorted_run_defs)
    then show ?thesis by simp
  next
    case (Some p)
    let ?m = "AList.update f (lineNums (locations p) f @ [3]) (locations p)"
    let ?m' = "AList.update f (lineNums (locations p) f @ [3, 5]) ?m"
    have loop: "fst (sortedLoop (Some p) f [''a'', ''a'', ''a'', ''b'', ''b'', ''c''])
        = [(''a'', p\<lparr>locations := ?m'\<rparr>), (''b'', p\<lparr>locations := ?m'\<rparr>),
           (''c'', \<lparr>locations = [(f, [6])], count = 1\<rparr>)]"
      and run: "\<not> hasPanicked (sortedLoop (Some p) f [''a'', ''a'', ''a'', ''b'', ''b'', ''c''])"
      by (simp_all add: sortedLoop_def sortedStep_def hasPanicked_def lineNums_update Let_def)
    have "\<exists>s e rest. ns @ [3, 5] = s # e # rest" for ns :: "int list"
      by (cases ns rule: remdups_adj.cases) auto
    then obtain s e rest where two: "lineNums (locations p) f @ [3, 5] = s # e # rest"
      by blast
    have out: "?out = Blank # (if 1 < count p
        then [SortedEntry (count p) ''a'' s e, SortedEntry (count p) ''b'' s e] else [])"
      using loop run two Some
      by (cases "sortedLoop (Some p) f [''a'', ''a'', ''a'', ''b'', ''b'', ''c'']")
         (simp add: DupDetectSorted_def hasPanicked_def lineNums_update)
    show ?thesis
    proof
      assume eq: "set ?out = {Blank, SortedEntry 3 ''a'' 1 3, SortedEntry 2 ''b'' 4 5}"
      show False
      proof (cases "1 < count p")
        case True
        with out have "SortedEntry (count p) ''a'' s e \<in> set ?out"
          and "SortedEntry (count p) ''b'' s e \<in> set ?out"
          by simp_all
        with eq have "count p = 3" and "count p = 2" by auto
        then show False by simp
      next
        case False
        with out have "set ?out = {Blank}" by simp
        with eq show False by auto
      qed
    qed
  qed
qed

text \<open>
  C2. The loop of the sorted path ends without closing the run that is open at the last
  line: on the two lines a, a with threshold 1 the entry of a has count 2 and only its
  start line stored, and the report's read of the end line is out of range. No run is
  closed on this input, so \<^verbatim>\<open>prevLineDatum\<close> plays no part.
\<close>

theorem sorted_last_run_panics:
  "DupDetectSorted prevLineDatum 1 \<lparr>srcName = f, srcOpens = True, srcLines = [''a'', ''a'']\<rparr>
     = [Blank, Panic] \<and>
   fst (sortedLoop prevLineDatum f [''a'', ''a'']) = [(''a'', \<lparr>locations = [(f, [1])], count = 2\<rparr>)]"
  by (simp add: sorted_run_defs)

subsection \<open>Aggregator: what the mapping holds after a sequence of records\<close>

lemma aggregate_snoc: "aggregate (rs @ [r]) = absorb (aggregate rs) r"
  by (simp add: aggregate_def)

lemma map_of_absorb_other: "k \<noteq> lineText r \<Longrightarrow> map_of (absorb A r) k = map_of A k"
  by (simp add: absorb_def update_conv' split: option.split)

lemma map_of_absorb_new:
  "map_of A (lineText r) = None \<Longrightarrow>
   map_of (absorb A r) (lineText r) = Some \<lparr>locations = [(fileName r, [lineNum r])], count = 1\<rparr>"
  by (simp add: absorb_def update_conv')

lemma map_of_absorb_old:
  "map_of A (lineText r) = Some d \<Longrightarrow>
   map_of (absorb A r) (lineText r) =
     Some \<lparr>locations = AList.update (fileName r) (lineNums (locations d) (fileName r) @ [lineNum r]) (locations d),
           count = count d + 1\<rparr>"
  by (simp add: absorb_def update_conv')

lemma distinct_absorb: "distinct (map fst A) \<Longrightarrow> distinct (map fst (absorb A r))"
  by (simp add: absorb_def distinct_update split: option.split)

lemma distinct_aggregate: "distinct (map fst (aggregate rs))"
  by (induction rs rule: rev_induct) (simp_all add: aggregate_snoc distinct_absorb, simp add: aggregate_def)

lemma aggregate_None: "map_of (aggregate rs) k = None \<longleftrightarrow> k \<notin> lineText ` set rs"
proof (induction rs rule: rev_induct)
  case Nil
  show ?case by (simp add: aggregate_def)
next
  case (snoc r rs)
  show ?case
  proof (cases "k = lineText r")
    case True
    then show ?thesis
      by (cases "map_of (aggregate rs) (lineText r)")
         (simp_all add: aggregate_snoc map_of_absorb_new map_of_absorb_old)
  next
    case False
    with snoc show ?thesis
      by (auto simp add: aggregate_snoc map_of_absorb_other)
  qed
qed

lemma aggregate_count:
  "map_of (aggregate rs) k = Some d \<Longrightarrow> count d = int (length (filter (\<lambda>r. lineText r = k) rs))"
proof (induction rs arbitrary: d rule: rev_induct)
  case Nil
  then show ?case by (simp add: aggregate_def)
next
  case (snoc r rs)
  show ?case
  proof (cases "k = lineText r")
    case False
    with snoc show ?thesis
      by (simp add: aggregate_snoc map_of_absorb_other)
  next
    case True
    show ?thesis
    proof (cases "map_of (aggregate rs) (lineText r)")
      case None
      then have "lineText r \<notin> lineText ` set rs"
        by (simp add: aggregate_None)
      then have "filter (\<lambda>x. lineText x = lineText r) rs = []"
        by (induction rs) auto
      with None True snoc.prems show ?thesis
        by (auto simp add: aggregate_snoc map_of_absorb_new)
    next
      case (Some d0)
      with True snoc.IH [of d0] snoc.prems show ?thesis
        by (auto simp add: aggregate_snoc map_of_absorb_old)
    qed
  qed
qed

lemma linesAt_snoc:
  "linesAt k f (rs @ [r]) =
     (if lineText r = k \<and> fileName r = f then linesAt k f rs @ [lineNum r] else linesAt k f rs)"
  by (simp add: linesAt_def)

lemma linesAt_unseen: "k \<notin> lineText ` set rs \<Longrightarrow> linesAt k f rs = []"
  by (auto simp add: linesAt_def filter_empty_conv)

lemma aggregate_locations:
  "map_of (aggregate rs) k = Some d \<Longrightarrow>
   map_of (locations d) f = (if linesAt k f rs = [] then None else Some (linesAt k f rs))"
proof (induction rs arbitrary: d rule: rev_induct)
  case Nil
  then show ?case by (simp add: aggregate_def)
next
  case (snoc r rs)
  show ?case
  proof (cases "k = lineText r")
    case False
    with snoc show ?thesis
      by (simp add: aggregate_snoc map_of_absorb_other linesAt_snoc)
  next
    case True
    show ?thesis
    proof (cases "map_of (aggregate rs) (lineText r)")
      case None
      then have "lineText r \<notin> lineText ` set rs"
        by (simp add: aggregate_None)
      then have "linesAt (lineText r) f rs = []"
        by (rule linesAt_unseen)
      with None True snoc.prems show ?thesis
        by (auto simp add: aggregate_snoc map_of_absorb_new linesAt_snoc)
    next
      case (Some d0)
      with True snoc.IH [of d0] snoc.IH [of d0] snoc.prems show ?thesis
        by (auto simp add: aggregate_snoc map_of_absorb_old linesAt_snoc update_conv' lineNums_def)
    qed
  qed
qed

lemma distinct_locations:
  "map_of (aggregate rs) k = Some d \<Longrightarrow> distinct (map fst (locations d))"
proof (induction rs arbitrary: d rule: rev_induct)
  case Nil
  then show ?case by (simp add: aggregate_def)
next
  case (snoc r rs)
  show ?case
  proof (cases "k = lineText r")
    case False
    with snoc show ?thesis
      by (simp add: aggregate_snoc map_of_absorb_other)
  next
    case True
    show ?thesis
    proof (cases "map_of (aggregate rs) (lineText r)")
      case None
      with True snoc.prems show ?thesis
        by (auto simp add: aggregate_snoc map_of_absorb_new)
    next
      case (Some d0)
      with True snoc.IH [of d0] snoc.prems show ?thesis
        by (auto simp add: aggregate_snoc map_of_absorb_old distinct_update)
    qed
  qed
qed

lemma stored_update:
  "stored (AList.update f (lineNums locs f @ [n]) locs) = stored locs + 1"
  by (induction locs) (auto simp add: stored_def lineNums_def)

lemma aggregate_stored:
  "map_of (aggregate rs) k = Some d \<Longrightarrow> stored (locations d) = count d"
proof (induction rs arbitrary: d rule: rev_induct)
  case Nil
  then show ?case by (simp add: aggregate_def)
next
  case (snoc r rs)
  show ?case
  proof (cases "k = lineText r")
    case False
    with snoc show ?thesis
      by (simp add: aggregate_snoc map_of_absorb_other)
  next
    case True
    show ?thesis
    proof (cases "map_of (aggregate rs) (lineText r)")
      case None
      with True snoc.prems show ?thesis
        by (auto simp add: aggregate_snoc map_of_absorb_new stored_def)
    next
      case (Some d0)
      with True snoc.IH [of d0] snoc.prems show ?thesis
        by (auto simp add: aggregate_snoc map_of_absorb_old stored_update)
    qed
  qed
qed


subsection \<open>Channel: every schedule delivers an interleaving\<close>

lemma concat_update_mset:
  "i < length qs \<Longrightarrow> qs ! i = r # rest \<Longrightarrow>
   mset (concat qs) = add_mset r (mset (concat (qs[i := rest])))"
proof (induction qs arbitrary: i)
  case Nil
  then show ?case by simp
next
  case (Cons q qs)
  then show ?case by (cases i) auto
qed

lemma mset_deliver: "mset (deliver sched qs) = mset (concat qs)"
proof (induction sched arbitrary: qs)
  case Nil
  show ?case by simp
next
  case (Cons i sched)
  show ?case
  proof (cases "i < length qs")
    case False
    with Cons show ?thesis by simp
  next
    case True
    show ?thesis
    proof (cases "qs ! i")
      case Nil
      with True Cons show ?thesis by simp
    next
      case (Cons r rest)
      with True Cons.IH [of "qs[i := rest]"] concat_update_mset [of i qs r rest]
      show ?thesis by simp
    qed
  qed
qed

lemma filter_concat_single:
  "i < length qs \<Longrightarrow> \<forall>j<length qs. j \<noteq> i \<longrightarrow> filter P (qs ! j) = [] \<Longrightarrow>
   filter P (concat qs) = filter P (qs ! i)"
proof (induction qs arbitrary: i)
  case Nil
  then show ?case by simp
next
  case (Cons q qs)
  show ?case
  proof (cases i)
    case 0
    from Cons.prems(2) have "\<forall>j<length qs. filter P (qs ! j) = []"
      using 0 by auto
    then have "\<forall>x\<in>set qs. filter P x = []"
      by (auto simp add: in_set_conv_nth)
    then have "filter P (concat qs) = []"
      by (induction qs) auto
    with 0 show ?thesis by simp
  next
    case (Suc i')
    with Cons.prems have "i' < length qs" by simp
    moreover from Cons.prems(2) Suc have "\<forall>j<length qs. j \<noteq> i' \<longrightarrow> filter P (qs ! j) = []"
      by auto
    ultimately have "filter P (concat qs) = filter P (qs ! i')"
      by (rule Cons.IH)
    moreover from Cons.prems(2) Suc have "filter P q = []"
      by auto
    ultimately show ?thesis using Suc by simp
  qed
qed

lemma filter_deliver_single:
  "i < length qs \<Longrightarrow> \<forall>j<length qs. j \<noteq> i \<longrightarrow> filter P (qs ! j) = [] \<Longrightarrow>
   filter P (deliver sched qs) = filter P (qs ! i)"
proof (induction sched arbitrary: qs)
  case Nil
  then show ?case by (simp add: filter_concat_single)
next
  case (Cons k sched)
  show ?case
  proof (cases "k < length qs")
    case False
    with Cons show ?thesis by simp
  next
    case True
    show ?thesis
    proof (cases "qs ! k")
      case Nil
      with True Cons show ?thesis by simp
    next
      case (Cons r rest)
      have len: "i < length (qs[k := rest])"
        using Cons.prems(1) by simp
      show ?thesis
      proof (cases "k = i")
        case True
        have "\<forall>j<length (qs[k := rest]). j \<noteq> i \<longrightarrow> filter P (qs[k := rest] ! j) = []"
          using Cons.prems(2) True by simp
        with len have "filter P (deliver sched (qs[k := rest])) = filter P (qs[k := rest] ! i)"
          by (rule Cons.IH)
        with True Cons \<open>k < length qs\<close> show ?thesis by simp
      next
        case False
        with Cons.prems(2) \<open>k < length qs\<close> have none: "filter P (qs ! k) = []"
          by simp
        with Cons have nr: "\<not> P r" and nrest: "filter P rest = []"
          by (simp_all split: if_splits)
        have "\<forall>j<length (qs[k := rest]). j \<noteq> i \<longrightarrow> filter P (qs[k := rest] ! j) = []"
          using Cons.prems(2) nrest \<open>k < length qs\<close> by (auto simp add: nth_list_update)
        with len have "filter P (deliver sched (qs[k := rest])) = filter P (qs[k := rest] ! i)"
          by (rule Cons.IH)
        with False Cons \<open>k < length qs\<close> nr show ?thesis by simp
      qed
    qed
  qed
qed

lemma deliver_drop_empty: "\<exists>sched'. deliver sched' (as @ bs) = deliver sched (as @ [] # bs)"
proof (induction sched arbitrary: as bs)
  case Nil
  have "deliver [] (as @ bs) = deliver [] (as @ [] # bs)" by simp
  then show ?case by blast
next
  case (Cons i sched)
  consider (left) "i < length as" | (mid) "i = length as"
    | (right) "length as < i" "i < Suc (length as + length bs)" | (out) "Suc (length as + length bs) \<le> i"
    by linarith
  then show ?case
  proof cases
    case left
    show ?thesis
    proof (cases "as ! i")
      case Nil
      with left have "deliver (i # sched) (as @ [] # bs) = deliver sched (as @ [] # bs)"
        by (simp add: nth_append)
      with Cons.IH [of as bs] show ?thesis by auto
    next
      case (Cons r rest)
      from Cons.IH [of "as[i := rest]" bs] obtain s where
        s: "deliver s (as[i := rest] @ bs) = deliver sched (as[i := rest] @ [] # bs)" by blast
      from left Cons s have "deliver (i # s) (as @ bs) = deliver (i # sched) (as @ [] # bs)"
        by (simp add: nth_append list_update_append)
      then show ?thesis by blast
    qed
  next
    case mid
    then have "deliver (i # sched) (as @ [] # bs) = deliver sched (as @ [] # bs)"
      by simp
    with Cons.IH [of as bs] show ?thesis by auto
  next
    case right
    define j where "j = i - Suc (length as)"
    from right have i: "i = Suc (length as) + j" and j: "j < length bs"
      by (simp_all add: j_def)
    show ?thesis
    proof (cases "bs ! j")
      case Nil
      with i j have "deliver (i # sched) (as @ [] # bs) = deliver sched (as @ [] # bs)"
        by (simp add: nth_append)
      with Cons.IH [of as bs] show ?thesis by auto
    next
      case (Cons r rest)
      from Cons.IH [of as "bs[j := rest]"] obtain s where
        s: "deliver s (as @ bs[j := rest]) = deliver sched (as @ [] # bs[j := rest])" by blast
      from i j Cons s
      have "deliver ((length as + j) # s) (as @ bs) = deliver (i # sched) (as @ [] # bs)"
        by (simp add: nth_append list_update_append)
      then show ?thesis by blast
    qed
  next
    case out
    then have "deliver (i # sched) (as @ [] # bs) = deliver sched (as @ [] # bs)"
      by simp
    with Cons.IH [of as bs] show ?thesis by auto
  qed
qed

lemma deliver_add_empty: "\<exists>sched'. deliver sched' (as @ [] # bs) = deliver sched (as @ bs)"
proof (induction sched arbitrary: as bs)
  case Nil
  have "deliver [] (as @ [] # bs) = deliver [] (as @ bs)" by simp
  then show ?case by blast
next
  case (Cons i sched)
  consider (left) "i < length as" | (right) "length as \<le> i" "i < length as + length bs"
    | (out) "length as + length bs \<le> i"
    by linarith
  then show ?case
  proof cases
    case left
    show ?thesis
    proof (cases "as ! i")
      case Nil
      with left have "deliver (i # sched) (as @ bs) = deliver sched (as @ bs)"
        by (simp add: nth_append)
      with Cons.IH [of as bs] show ?thesis by auto
    next
      case (Cons r rest)
      from Cons.IH [of "as[i := rest]" bs] obtain s where
        s: "deliver s (as[i := rest] @ [] # bs) = deliver sched (as[i := rest] @ bs)" by blast
      from left Cons s have "deliver (i # s) (as @ [] # bs) = deliver (i # sched) (as @ bs)"
        by (simp add: nth_append list_update_append)
      then show ?thesis by blast
    qed
  next
    case right
    define j where "j = i - length as"
    from right have i: "i = length as + j" and j: "j < length bs"
      by (simp_all add: j_def)
    show ?thesis
    proof (cases "bs ! j")
      case Nil
      with i j have "deliver (i # sched) (as @ bs) = deliver sched (as @ bs)"
        by (simp add: nth_append)
      with Cons.IH [of as bs] show ?thesis by auto
    next
      case (Cons r rest)
      from Cons.IH [of as "bs[j := rest]"] obtain s where
        s: "deliver s (as @ [] # bs[j := rest]) = deliver sched (as @ bs[j := rest])" by blast
      from i j Cons s
      have "deliver (Suc (length as + j) # s) (as @ [] # bs) = deliver (i # sched) (as @ bs)"
        by (simp add: nth_append list_update_append)
      then show ?thesis by blast
    qed
  next
    case out
    then have "deliver (i # sched) (as @ bs) = deliver sched (as @ bs)"
      by simp
    with Cons.IH [of as bs] show ?thesis by auto
  qed
qed

lemma deliver_drop_silent:
  "\<forall>x\<in>set xs. \<not> keep x \<longrightarrow> q x = [] \<Longrightarrow>
   \<exists>sched'. deliver sched' (as @ map q (filter keep xs)) = deliver sched (as @ map q xs)"
proof (induction xs arbitrary: as sched)
  case Nil
  show ?case by auto
next
  case (Cons x xs)
  show ?case
  proof (cases "keep x")
    case True
    from Cons.prems have "\<forall>x\<in>set xs. \<not> keep x \<longrightarrow> q x = []" by simp
    from Cons.IH [OF this, of "as @ [q x]" sched] True show ?thesis by simp
  next
    case False
    with Cons.prems have qx: "q x = []" by simp
    from deliver_drop_empty [of as "map q xs" sched] obtain s where
      s: "deliver s (as @ map q xs) = deliver sched (as @ [] # map q xs)" by blast
    from Cons.prems have "\<forall>x\<in>set xs. \<not> keep x \<longrightarrow> q x = []" by simp
    from Cons.IH [OF this, of as s] obtain s' where
      "deliver s' (as @ map q (filter keep xs)) = deliver s (as @ map q xs)" by blast
    with s qx False have "deliver s' (as @ map q (filter keep (x # xs))) = deliver sched (as @ map q (x # xs))"
      by simp
    then show ?thesis by blast
  qed
qed

lemma deliver_add_silent:
  "\<forall>x\<in>set xs. \<not> keep x \<longrightarrow> q x = [] \<Longrightarrow>
   \<exists>sched'. deliver sched' (as @ map q xs) = deliver sched (as @ map q (filter keep xs))"
proof (induction xs arbitrary: as sched)
  case Nil
  show ?case by auto
next
  case (Cons x xs)
  from Cons.prems have rest: "\<forall>x\<in>set xs. \<not> keep x \<longrightarrow> q x = []" by simp
  show ?case
  proof (cases "keep x")
    case True
    from Cons.IH [OF rest, of "as @ [q x]" sched] True show ?thesis by simp
  next
    case False
    with Cons.prems have qx: "q x = []" by simp
    from Cons.IH [OF rest, of as sched] obtain s where
      s: "deliver s (as @ map q xs) = deliver sched (as @ map q (filter keep xs))" by blast
    from deliver_add_empty [of as "map q xs" s] obtain s' where
      "deliver s' (as @ [] # map q xs) = deliver s (as @ map q xs)" by blast
    with s qx False have "deliver s' (as @ map q (x # xs)) = deliver sched (as @ map q (filter keep (x # xs)))"
      by simp
    then show ?thesis by blast
  qed
qed


text \<open>The schedules yield the interleavings, all of them and nothing else.\<close>

lemma interleaving_concat: "interleaving (replicate n [] @ qs) (concat qs)"
proof (induction qs arbitrary: n)
  case Nil
  have "interleaving (replicate n []) ([] :: 'a list)"
    by (rule finished) simp
  then show ?case by simp
next
  case (Cons q qs)
  show ?case
  proof (induction q)
    case Nil
    from Cons [of "Suc n"] show ?case
      by (simp add: replicate_app_Cons_same)
  next
    case (Cons r q)
    have "interleaving (replicate n [] @ (r # q) # qs) (r # concat (q # qs))"
    proof (rule received [where i = n and rest = q])
      show "n < length (replicate n [] @ (r # q) # qs)" by simp
      show "(replicate n [] @ (r # q) # qs) ! n = r # q" by (simp add: nth_append)
      from Cons show "interleaving ((replicate n [] @ (r # q) # qs)[n := q]) (concat (q # qs))"
        by (simp add: list_update_append)
    qed
    then show ?case by simp
  qed
qed

lemma interleaving_deliver: "interleaving qs (deliver sched qs)"
proof (induction sched arbitrary: qs)
  case Nil
  from interleaving_concat [of 0 qs] show ?case by simp
next
  case (Cons i sched)
  show ?case
  proof (cases "i < length qs")
    case False
    with Cons show ?thesis by simp
  next
    case True
    show ?thesis
    proof (cases "qs ! i")
      case Nil
      with True Cons show ?thesis by simp
    next
      case (Cons r rest)
      from True Cons Cons.IH [of "qs[i := rest]"] show ?thesis
        by (simp add: received)
    qed
  qed
qed

lemma interleaving_scheduled: "interleaving qs rs \<Longrightarrow> \<exists>sched. deliver sched qs = rs"
proof (induction rule: interleaving.induct)
  case (finished qs)
  then have "deliver [] qs = []" by simp
  then show ?case by blast
next
  case (received i qs r rest rs)
  then obtain sched where "deliver sched (qs[i := rest]) = rs" by blast
  with received have "deliver (i # sched) qs = r # rs" by simp
  then show ?case by blast
qed

lemma schedules_are_interleavings: "interleaving qs rs \<longleftrightarrow> (\<exists>sched. deliver sched qs = rs)"
  using interleaving_deliver interleaving_scheduled by blast

subsection \<open>Multi-source path\<close>

lemma mset_arrivals: "mset (arrivals sched files) = mset (emitted files)"
  by (simp add: arrivals_def emitted_def mset_deliver)

lemma set_arrivals: "set (arrivals sched files) = set (emitted files)"
  using mset_arrivals [of sched files] by (rule mset_eq_setD)

lemma length_filter_arrivals:
  "length (filter P (arrivals sched files)) = length (filter P (emitted files))"
proof -
  have "mset (filter P (arrivals sched files)) = mset (filter P (emitted files))"
    by (simp add: mset_arrivals)
  then show ?thesis by (rule mset_eq_length)
qed

lemma in_aggregate_iff: "(k, d) \<in> set (aggregate rs) \<longleftrightarrow> map_of (aggregate rs) k = Some d"
  by (simp add: distinct_aggregate)

lemma Entry_in_report:
  "Entry c k locs \<in> set (report threshold A) \<longleftrightarrow>
     (\<exists>d. (k, d) \<in> set A \<and> c = count d \<and> locs = locations d \<and> threshold < count d)"
  by (auto simp add: report_def image_iff)

lemma Entry_not_message: "Entry c k locs \<notin> set (concat (map (\<lambda>f. fst (collectLines f)) files))"
  by (induction files) (auto simp add: collectLines_def)

lemma Entry_in_detectMulti:
  "Entry c k locs \<in> set (detectMulti sched threshold files) \<longleftrightarrow>
     Entry c k locs \<in> set (report threshold (aggregate (arrivals sched files)))"
  using Entry_not_message [of c k locs files] by (simp add: detectMulti_def)

lemma deliver_no_readers: "deliver sched [] = []"
  by (induction sched) simp_all

lemma Entry_in_DupDetectFiles:
  "Entry c k locs \<in> set (DupDetectFiles prevLineDatum sched stdin threshold False files) \<longleftrightarrow>
     Entry c k locs \<in> set (report threshold (aggregate (arrivals sched files)))"
proof (cases files)
  case Nil
  then show ?thesis
    by (auto simp add: DupDetectFiles_def DupDetect_def arrivals_def aggregate_def report_def
        deliver_no_readers)
next
  case (Cons f fs)
  then show ?thesis
    by (simp add: DupDetectFiles_def Entry_in_detectMulti)
qed

lemmas run_defs =
  DupDetectFiles_def detectMulti_def arrivals_def emitted_def collectLines_def aggregate_def
  absorb_def report_def lineNums_def getKey_def stored_def openFails_def

text \<open>
  C1. Whatever the sources and the schedule, every entry of the final mapping has as
  count the number of records sent with its key, the line numbers stored in its
  per-source lists number the same, and every record sent has an entry under its key.
\<close>

theorem record_conservation:
  "(\<forall>k d. (k, d) \<in> set (aggregate (arrivals sched files)) \<longrightarrow>
      count d = int (length (filter (\<lambda>r. lineText r = k) (emitted files))) \<and>
      stored (locations d) = count d) \<and>
   (\<forall>r \<in> set (emitted files). \<exists>d. (lineText r, d) \<in> set (aggregate (arrivals sched files)))"
proof (intro conjI allI impI ballI)
  fix k d
  assume "(k, d) \<in> set (aggregate (arrivals sched files))"
  then have m: "map_of (aggregate (arrivals sched files)) k = Some d"
    by (simp add: in_aggregate_iff)
  from aggregate_count [OF m] show "count d = int (length (filter (\<lambda>r. lineText r = k) (emitted files)))"
    by (simp add: length_filter_arrivals)
  from aggregate_stored [OF m] show "stored (locations d) = count d" .
next
  fix r
  assume "r \<in> set (emitted files)"
  then have "lineText r \<in> lineText ` set (arrivals sched files)"
    by (simp add: set_arrivals)
  then have "map_of (aggregate (arrivals sched files)) (lineText r) \<noteq> None"
    by (simp add: aggregate_None)
  then show "\<exists>d. (lineText r, d) \<in> set (aggregate (arrivals sched files))"
    by (auto simp add: in_aggregate_iff)
qed

theorem record_conservation_witness:
  "(''x'', \<lparr>locations = [(''B'', [1]), (''A'', [1, 3])], count = 3\<rparr>)
      \<in> set (aggregate (arrivals [1, 0] [srcA, srcB])) \<and>
   length (filter (\<lambda>r. lineText r = ''x'') (emitted [srcA, srcB])) = 3 \<and>
   stored [(''B'', [1]), (''A'', [1, 3])] = 3"
proof -
  have mem: "(''x'', \<lparr>locations = [(''B'', [1]), (''A'', [1, 3])], count = 3\<rparr>)
      \<in> set (aggregate (arrivals [1, 0] [srcA, srcB]))"
    by (simp add: run_defs srcA_def srcB_def)
  with record_conservation [of "[1, 0]" "[srcA, srcB]"]
  have "count \<lparr>locations = [(''B'', [1]), (''A'', [1, 3])], count = 3\<rparr>
          = int (length (filter (\<lambda>r. lineText r = ''x'') (emitted [srcA, srcB]))) \<and>
        stored (locations \<lparr>locations = [(''B'', [1]), (''A'', [1, 3])], count = 3\<rparr>)
          = count \<lparr>locations = [(''B'', [1]), (''A'', [1, 3])], count = 3\<rparr>"
    by blast
  with mem show ?thesis by simp
qed



subsection \<open>Threshold filter\<close>

lemma reportSorted_sound:
  "SortedEntry c k s e \<in> set (reportSorted threshold f A) \<Longrightarrow>
   \<exists>d. (k, d) \<in> set A \<and> c = count d \<and> threshold < c"
  by (induction threshold f A rule: reportSorted.induct)
     (auto split: if_splits list.splits)

lemma reportSorted_complete:
  "Panic \<notin> set (reportSorted threshold f A) \<Longrightarrow> (k, d) \<in> set A \<Longrightarrow> threshold < count d \<Longrightarrow>
   \<exists>s e. SortedEntry (count d) k s e \<in> set (reportSorted threshold f A)"
  by (induction threshold f A rule: reportSorted.induct)
     (auto split: if_splits list.splits)

lemma DupDetectSorted_cases:
  "DupDetectSorted prevLineDatum threshold src = [OpenError (srcName src)] \<or>
   DupDetectSorted prevLineDatum threshold src = [Panic] \<or>
   DupDetectSorted prevLineDatum threshold src
     = Blank # reportSorted threshold (srcName src) (fst (sortedLoop prevLineDatum (srcName src) (srcLines src)))"
  by (cases "sortedLoop prevLineDatum (srcName src) (srcLines src)") (simp add: DupDetectSorted_def)

lemma DupDetectSorted_completed:
  "srcOpens src \<Longrightarrow> Panic \<notin> set (DupDetectSorted prevLineDatum threshold src) \<Longrightarrow>
   DupDetectSorted prevLineDatum threshold src
     = Blank # reportSorted threshold (srcName src) (fst (sortedLoop prevLineDatum (srcName src) (srcLines src)))"
  by (cases "sortedLoop prevLineDatum (srcName src) (srcLines src)")
     (auto simp add: DupDetectSorted_def split: if_splits)

text \<open>
  C4. The filter is strict and exhaustive. In the multi-source path an entry of the final
  mapping is printed exactly when its count is greater than the threshold, and nothing
  is printed that is not such an entry. The sorted path applies the same test: what it
  prints is an entry whose count is greater than the threshold, and when its run does
  not panic, an entry is printed exactly when its count is greater than the threshold.
\<close>

theorem threshold_filter:
  "(\<forall>k d. (k, d) \<in> set (aggregate (arrivals sched files)) \<longrightarrow>
      (Entry (count d) k (locations d) \<in> set (DupDetectFiles prevLineDatum sched stdin threshold False files)
         \<longleftrightarrow> threshold < count d)) \<and>
   (\<forall>c k locs. Entry c k locs \<in> set (DupDetectFiles prevLineDatum sched stdin threshold False files) \<longrightarrow>
      (\<exists>d. (k, d) \<in> set (aggregate (arrivals sched files)) \<and> c = count d \<and> locs = locations d)) \<and>
   (\<forall>c k s e. SortedEntry c k s e \<in> set (DupDetectSorted prevLineDatum threshold src) \<longrightarrow>
      (\<exists>d. (k, d) \<in> set (fst (sortedLoop prevLineDatum (srcName src) (srcLines src))) \<and>
           c = count d \<and> threshold < c)) \<and>
   (srcOpens src \<and> Panic \<notin> set (DupDetectSorted prevLineDatum threshold src) \<longrightarrow>
      (\<forall>k d. (k, d) \<in> set (fst (sortedLoop prevLineDatum (srcName src) (srcLines src))) \<longrightarrow>
         ((\<exists>s e. SortedEntry (count d) k s e \<in> set (DupDetectSorted prevLineDatum threshold src))
            \<longleftrightarrow> threshold < count d)))"
proof (intro conjI allI impI)
  fix k d
  assume "(k, d) \<in> set (aggregate (arrivals sched files))"
  then show "Entry (count d) k (locations d) \<in> set (DupDetectFiles prevLineDatum sched stdin threshold False files)
         \<longleftrightarrow> threshold < count d"
    by (auto simp add: Entry_in_DupDetectFiles Entry_in_report)
next
  fix c k locs
  assume "Entry c k locs \<in> set (DupDetectFiles prevLineDatum sched stdin threshold False files)"
  then show "\<exists>d. (k, d) \<in> set (aggregate (arrivals sched files)) \<and> c = count d \<and> locs = locations d"
    by (auto simp add: Entry_in_DupDetectFiles Entry_in_report)
next
  fix c k s e
  assume "SortedEntry c k s e \<in> set (DupDetectSorted prevLineDatum threshold src)"
  with DupDetectSorted_cases [of prevLineDatum threshold src] have "SortedEntry c k s e
      \<in> set (reportSorted threshold (srcName src) (fst (sortedLoop prevLineDatum (srcName src) (srcLines src))))"
    by auto
  then show "\<exists>d. (k, d) \<in> set (fst (sortedLoop prevLineDatum (srcName src) (srcLines src))) \<and>
      c = count d \<and> threshold < c"
    by (rule reportSorted_sound)
next
  fix k d
  assume run: "srcOpens src \<and> Panic \<notin> set (DupDetectSorted prevLineDatum threshold src)"
    and mem: "(k, d) \<in> set (fst (sortedLoop prevLineDatum (srcName src) (srcLines src)))"
  let ?A = "fst (sortedLoop prevLineDatum (srcName src) (srcLines src))"
  from run have out: "DupDetectSorted prevLineDatum threshold src = Blank # reportSorted threshold (srcName src) ?A"
    using DupDetectSorted_completed [where src = src and prevLineDatum = prevLineDatum and threshold = threshold]
    by blast
  with run have np: "Panic \<notin> set (reportSorted threshold (srcName src) ?A)"
    by simp
  show "(\<exists>s e. SortedEntry (count d) k s e \<in> set (DupDetectSorted prevLineDatum threshold src))
            \<longleftrightarrow> threshold < count d"
  proof
    assume "\<exists>s e. SortedEntry (count d) k s e \<in> set (DupDetectSorted prevLineDatum threshold src)"
    then obtain s e where
      "SortedEntry (count d) k s e \<in> set (reportSorted threshold (srcName src) ?A)"
      by (auto simp add: out)
    from reportSorted_sound [OF this] show "threshold < count d" by blast
  next
    assume "threshold < count d"
    from reportSorted_complete [OF np mem this] show
      "\<exists>s e. SortedEntry (count d) k s e \<in> set (DupDetectSorted prevLineDatum threshold src)"
      by (auto simp add: out)
  qed
qed

theorem threshold_filter_witness:
  "(''x'', \<lparr>locations = [(''B'', [1]), (''A'', [1, 3])], count = 3\<rparr>)
      \<in> set (aggregate (arrivals [1, 0] [srcA, srcB])) \<and>
   Entry 3 ''x'' [(''B'', [1]), (''A'', [1, 3])]
      \<in> set (DupDetectFiles None [1, 0] [] 2 False [srcA, srcB]) \<and>
   Entry 3 ''x'' [(''B'', [1]), (''A'', [1, 3])]
      \<notin> set (DupDetectFiles None [1, 0] [] 3 False [srcA, srcB]) \<and>
   srcOpens srcRuns \<and> Panic \<notin> set (DupDetectSorted declFive 4 srcRuns) \<and>
   (''b'', \<lparr>locations = [(''sortedc'', [1, 2])], count = 5\<rparr>)
      \<in> set (fst (sortedLoop declFive (srcName srcRuns) (srcLines srcRuns))) \<and>
   (\<exists>s e. SortedEntry 5 ''b'' s e \<in> set (DupDetectSorted declFive 4 srcRuns)) \<and>
   \<not> (\<exists>s e. SortedEntry 5 ''b'' s e \<in> set (DupDetectSorted declFive 5 srcRuns))"
proof -
  let ?x = "\<lparr>locations = [(''B'', [1]), (''A'', [1, 3])], count = 3\<rparr>"
  let ?b = "\<lparr>locations = [(''sortedc'', [1, 2])], count = 5\<rparr>"
  have x: "(''x'', ?x) \<in> set (aggregate (arrivals [1, 0] [srcA, srcB]))"
    by (simp add: run_defs srcA_def srcB_def)
  have b: "(''b'', ?b) \<in> set (fst (sortedLoop declFive (srcName srcRuns) (srcLines srcRuns)))"
    by (simp add: sorted_run_defs Let_def srcRuns_def declFive_def)
  have ok: "srcOpens srcRuns" "Panic \<notin> set (DupDetectSorted declFive 4 srcRuns)"
    "Panic \<notin> set (DupDetectSorted declFive 5 srcRuns)"
    by (simp_all add: sorted_run_defs Let_def srcRuns_def declFive_def)
  from x threshold_filter [where sched = "[1, 0]" and files = "[srcA, srcB]" and prevLineDatum = None
      and stdin = "[]" and threshold = 2]
  have e2: "Entry (count ?x) ''x'' (locations ?x)
        \<in> set (DupDetectFiles None [1, 0] [] 2 False [srcA, srcB])
      \<longleftrightarrow> 2 < count ?x"
    by blast
  from x threshold_filter [where sched = "[1, 0]" and files = "[srcA, srcB]" and prevLineDatum = None
      and stdin = "[]" and threshold = 3]
  have e3: "Entry (count ?x) ''x'' (locations ?x)
        \<in> set (DupDetectFiles None [1, 0] [] 3 False [srcA, srcB])
      \<longleftrightarrow> 3 < count ?x"
    by blast
  from b ok threshold_filter [where prevLineDatum = declFive and threshold = 4 and src = srcRuns]
  have s1: "(\<exists>s e. SortedEntry (count ?b) ''b'' s e \<in> set (DupDetectSorted declFive 4 srcRuns))
      \<longleftrightarrow> 4 < count ?b"
    by blast
  from b ok threshold_filter [where prevLineDatum = declFive and threshold = 5 and src = srcRuns]
  have s2: "(\<exists>s e. SortedEntry (count ?b) ''b'' s e \<in> set (DupDetectSorted declFive 5 srcRuns))
      \<longleftrightarrow> 5 < count ?b"
    by blast
  from x b ok e2 e3 s1 s2 show ?thesis by simp
qed


subsection \<open>Files that fail to open\<close>

lemma messages_are_failures:
  "concat (map (\<lambda>f. fst (collectLines f)) files)
     = map (\<lambda>s. OpenError (srcName s)) (filter openFails files)"
  by (induction files) (simp_all add: collectLines_def openFails_def)

lemma no_messages_without_failures:
  "concat (map (\<lambda>f. fst (collectLines f)) (filter (\<lambda>s. \<not> openFails s) files)) = []"
  by (induction files) (simp_all add: collectLines_def openFails_def)

lemma failed_source_is_silent: "openFails src \<Longrightarrow> snd (collectLines src) = []"
  by (simp add: collectLines_def openFails_def)

lemma arrivals_without_failures:
  "\<exists>sched'. arrivals sched' (filter (\<lambda>s. \<not> openFails s) files) = arrivals sched files"
proof -
  have "\<forall>x\<in>set files. \<not> (\<not> openFails x) \<longrightarrow> snd (collectLines x) = []"
    by (simp add: failed_source_is_silent)
  from deliver_drop_silent [of files "\<lambda>s. \<not> openFails s" "\<lambda>f. snd (collectLines f)" "[]" sched, OF this]
  show ?thesis by (simp add: arrivals_def)
qed

lemma arrivals_with_failures:
  "\<exists>sched'. arrivals sched' files = arrivals sched (filter (\<lambda>s. \<not> openFails s) files)"
proof -
  have "\<forall>x\<in>set files. \<not> (\<not> openFails x) \<longrightarrow> snd (collectLines x) = []"
    by (simp add: failed_source_is_silent)
  from deliver_add_silent [of files "\<lambda>s. \<not> openFails s" "\<lambda>f. snd (collectLines f)" "[]" sched, OF this]
  show ?thesis by (simp add: arrivals_def)
qed

lemma detectMulti_split:
  "arrivals sched' (filter (\<lambda>s. \<not> openFails s) files) = arrivals sched files \<Longrightarrow>
   detectMulti sched threshold files
     = map (\<lambda>s. OpenError (srcName s)) (filter openFails files)
         @ detectMulti sched' threshold (filter (\<lambda>s. \<not> openFails s) files)"
  by (simp add: detectMulti_def messages_are_failures no_messages_without_failures)

text \<open>
  C6. A named file that fails to open is reported, sends no record, and does not abort
  the run: the run prints the messages of the failing files and then exactly what a
  run over the remaining sources prints under some schedule. The record sequences that
  can reach the aggregating task with and without the failing sources are the same.
  The run over the remaining sources is \<^const>\<open>detectMulti\<close>, the multi-source body, since
  \<^verbatim>\<open>DupDetectFiles\<close> with no file left would read standard input instead.
\<close>

theorem open_failure_is_partial:
  "(src \<in> set files \<and> openFails src \<longrightarrow>
      OpenError (srcName src) \<in> set (DupDetectFiles prevLineDatum sched stdin threshold False files) \<and>
      snd (collectLines src) = [] \<and>
      Separator \<in> set (DupDetectFiles prevLineDatum sched stdin threshold False files) \<and>
      Panic \<notin> set (DupDetectFiles prevLineDatum sched stdin threshold False files) \<and>
      (\<exists>sched'. DupDetectFiles prevLineDatum sched stdin threshold False files
          = map (\<lambda>s. OpenError (srcName s)) (filter openFails files)
              @ detectMulti sched' threshold (filter (\<lambda>s. \<not> openFails s) files))) \<and>
   (\<exists>sched'. arrivals sched' (filter (\<lambda>s. \<not> openFails s) files) = arrivals sched files) \<and>
   (\<exists>sched'. arrivals sched' files = arrivals sched (filter (\<lambda>s. \<not> openFails s) files))"
proof (intro conjI impI)
  assume a: "src \<in> set files \<and> openFails src"
  then have ne: "files \<noteq> []" by auto
  then have run: "DupDetectFiles prevLineDatum sched stdin threshold False files = detectMulti sched threshold files"
    by (cases files) (simp_all add: DupDetectFiles_def)
  from arrivals_without_failures [of files sched] obtain s where
    s: "arrivals s (filter (\<lambda>s. \<not> openFails s) files) = arrivals sched files" by blast
  note split = detectMulti_split [OF s, of threshold]
  from a show "OpenError (srcName src) \<in> set (DupDetectFiles prevLineDatum sched stdin threshold False files)"
    by (auto simp add: run split)
  from a show "snd (collectLines src) = []"
    by (simp add: failed_source_is_silent)
  show "Separator \<in> set (DupDetectFiles prevLineDatum sched stdin threshold False files)"
    by (simp add: run detectMulti_def)
  show "Panic \<notin> set (DupDetectFiles prevLineDatum sched stdin threshold False files)"
    by (auto simp add: run detectMulti_def messages_are_failures report_def)
  from split show "\<exists>sched'. DupDetectFiles prevLineDatum sched stdin threshold False files
          = map (\<lambda>s. OpenError (srcName s)) (filter openFails files)
              @ detectMulti sched' threshold (filter (\<lambda>s. \<not> openFails s) files)"
    unfolding run by blast
next
  show "\<exists>sched'. arrivals sched' (filter (\<lambda>s. \<not> openFails s) files) = arrivals sched files"
    by (rule arrivals_without_failures)
  show "\<exists>sched'. arrivals sched' files = arrivals sched (filter (\<lambda>s. \<not> openFails s) files)"
    by (rule arrivals_with_failures)
qed


theorem open_failure_is_partial_witness:
  "srcMissing \<in> set [srcA, srcMissing] \<and> openFails srcMissing \<and>
   OpenError ''missing.txt'' \<in> set (DupDetectFiles None [0] [] 1 False [srcA, srcMissing]) \<and>
   snd (collectLines srcMissing) = [] \<and>
   (\<exists>sched'. DupDetectFiles None [0] [] 1 False [srcA, srcMissing]
       = OpenError ''missing.txt'' # detectMulti sched' 1 [srcA])"
proof -
  have h: "srcMissing \<in> set [srcA, srcMissing] \<and> openFails srcMissing"
    by (simp add: openFails_def srcMissing_def)
  have f: "openFails srcMissing" "\<not> openFails srcA" "srcName srcMissing = ''missing.txt''"
    by (simp_all add: openFails_def srcMissing_def srcA_def)
  from h open_failure_is_partial [where src = srcMissing and files = "[srcA, srcMissing]"
      and prevLineDatum = None and sched = "[0]" and stdin = "[]" and threshold = 1]
  have "OpenError (srcName srcMissing) \<in> set (DupDetectFiles None [0] [] 1 False [srcA, srcMissing]) \<and>
      snd (collectLines srcMissing) = [] \<and>
      (\<exists>sched'. DupDetectFiles None [0] [] 1 False [srcA, srcMissing]
          = map (\<lambda>s. OpenError (srcName s)) (filter openFails [srcA, srcMissing])
              @ detectMulti sched' 1 (filter (\<lambda>s. \<not> openFails s) [srcA, srcMissing]))"
    by blast
  with h show ?thesis by (simp add: f)
qed

subsection \<open>Order of the line numbers of one source\<close>

lemma scanLines_fileName: "r \<in> set (scanLines f n ls) \<Longrightarrow> fileName r = f"
  by (induction ls arbitrary: n) auto

lemma scanLines_bounds:
  "r \<in> set (scanLines f n ls) \<Longrightarrow> n < lineNum r \<and> lineNum r \<le> n + int (length ls)"
proof (induction ls arbitrary: n)
  case Nil
  then show ?case by simp
next
  case (Cons l ls)
  from Cons.prems have "r = \<lparr>lineText = getKey l, fileName = f, lineNum = n + 1\<rparr>
      \<or> r \<in> set (scanLines f (n + 1) ls)"
    by simp
  then show ?case
  proof
    assume "r = \<lparr>lineText = getKey l, fileName = f, lineNum = n + 1\<rparr>"
    then show ?thesis by simp
  next
    assume "r \<in> set (scanLines f (n + 1) ls)"
    from Cons.IH [OF this] show ?thesis by simp
  qed
qed

lemma scanLines_increasing: "sorted_wrt (\<lambda>a b. lineNum a < lineNum b) (scanLines f n ls)"
proof (induction ls arbitrary: n)
  case Nil
  show ?case by simp
next
  case (Cons l ls)
  have "\<forall>r\<in>set (scanLines f (n + 1) ls). n + 1 < lineNum r"
    using scanLines_bounds [of _ f "n + 1" ls] by blast
  with Cons.IH [of "n + 1"] show ?case by simp
qed

lemma scanLines_keys: "lineText ` set (scanLines f n ls) = getKey ` set ls"
  by (induction ls arbitrary: n) auto

lemma collectLines_fileName: "r \<in> set (snd (collectLines src)) \<Longrightarrow> fileName r = srcName src"
  by (auto simp add: collectLines_def scanLines_fileName split: if_splits)

lemma collectLines_bounds:
  "r \<in> set (snd (collectLines src)) \<Longrightarrow> 1 \<le> lineNum r \<and> lineNum r \<le> int (length (srcLines src))"
  using scanLines_bounds [of r "srcName src" 0 "srcLines src"]
  by (auto simp add: collectLines_def split: if_splits)

lemma collectLines_increasing:
  "sorted_wrt (\<lambda>a b. lineNum a < lineNum b) (snd (collectLines src))"
  by (simp add: collectLines_def scanLines_increasing)

lemma collectLines_keys:
  "lineText ` set (snd (collectLines src)) = (if openFails src then {} else getKey ` set (srcLines src))"
  by (auto simp add: collectLines_def openFails_def scanLines_keys)

lemma emitted_fileName: "r \<in> set (emitted files) \<Longrightarrow> fileName r \<in> srcName ` set files"
  by (auto simp add: emitted_def dest: collectLines_fileName)

lemma arrivals_of_source:
  assumes "distinct (map srcName files)" and "i < length files"
  shows "filter (\<lambda>r. fileName r = srcName (files ! i)) (arrivals sched files)
           = snd (collectLines (files ! i))"
proof -
  let ?P = "\<lambda>r. fileName r = srcName (files ! i)"
  let ?qs = "map (\<lambda>f. snd (collectLines f)) files"
  have others: "\<forall>j<length ?qs. j \<noteq> i \<longrightarrow> filter ?P (?qs ! j) = []"
  proof (intro allI impI)
    fix j
    assume j: "j < length ?qs" and ne: "j \<noteq> i"
    with assms have "srcName (files ! j) \<noteq> srcName (files ! i)"
      using nth_eq_iff_index_eq [of "map srcName files" j i] by simp
    with j show "filter ?P (?qs ! j) = []"
      by (auto simp add: filter_empty_conv dest: collectLines_fileName)
  qed
  from assms(2) have "i < length ?qs" by simp
  from filter_deliver_single [OF this others, of sched]
  have "filter ?P (arrivals sched files) = filter ?P (snd (collectLines (files ! i)))"
    using assms(2) by (simp add: arrivals_def)
  moreover have "filter ?P (snd (collectLines (files ! i))) = snd (collectLines (files ! i))"
    by (auto simp add: filter_id_conv dest: collectLines_fileName)
  ultimately show ?thesis by simp
qed

lemma arrivals_of_nobody:
  "f \<notin> srcName ` set files \<Longrightarrow> filter (\<lambda>r. fileName r = f) (arrivals sched files) = []"
  using emitted_fileName [of _ files] by (auto simp add: filter_empty_conv set_arrivals)

lemma linesAt_two_filters:
  "linesAt k f rs = map lineNum (filter (\<lambda>r. lineText r = k) (filter (\<lambda>r. fileName r = f) rs))"
  by (simp add: linesAt_def conj_commute)

lemma Entry_in_run:
  "Entry c k locs \<in> set (DupDetectFiles prevLineDatum sched stdin threshold False files) \<longleftrightarrow>
     (\<exists>d. map_of (aggregate (arrivals sched files)) k = Some d \<and>
          c = count d \<and> locs = locations d \<and> threshold < count d)"
  by (simp add: Entry_in_DupDetectFiles Entry_in_report in_aggregate_iff)

text \<open>
  C7, as amended. When the names of the sources are pairwise distinct, every location
  list printed for a source is strictly increasing, and its line numbers lie between 1
  and the number of lines of that source.
\<close>

theorem per_source_order:
  assumes "distinct (map srcName files)"
    and "Entry c k locs \<in> set (DupDetectFiles prevLineDatum sched stdin threshold False files)"
    and "(f, ns) \<in> set locs"
  shows "sorted_wrt (<) ns \<and>
         (\<exists>src\<in>set files. srcName src = f \<and> (\<forall>n\<in>set ns. 1 \<le> n \<and> n \<le> int (length (srcLines src))))"
proof -
  let ?rs = "arrivals sched files"
  from assms(2) obtain d where d: "map_of (aggregate ?rs) k = Some d" and locs: "locs = locations d"
    by (auto simp add: Entry_in_run)
  from distinct_locations [OF d] assms(3) locs have "map_of (locations d) f = Some ns"
    by simp
  with aggregate_locations [OF d, of f] have ns: "ns = linesAt k f ?rs" and ne: "linesAt k f ?rs \<noteq> []"
    by (simp_all split: if_splits)
  have "filter (\<lambda>r. fileName r = f) ?rs \<noteq> []"
  proof
    assume "filter (\<lambda>r. fileName r = f) ?rs = []"
    then have "linesAt k f ?rs = []"
      unfolding linesAt_two_filters by simp
    with ne show False by simp
  qed
  then have "f \<in> srcName ` set files"
    using arrivals_of_nobody [of f files sched] by blast
  then obtain i where i: "i < length files" and f: "f = srcName (files ! i)"
    by (auto simp add: in_set_conv_nth)
  let ?q = "snd (collectLines (files ! i))"
  from arrivals_of_source [OF assms(1) i, of sched] f ns
  have ns': "ns = map lineNum (filter (\<lambda>r. lineText r = k) ?q)"
    by (simp add: linesAt_two_filters)
  have "sorted_wrt (\<lambda>a b. lineNum a < lineNum b) (filter (\<lambda>r. lineText r = k) ?q)"
    by (rule sorted_wrt_filter) (rule collectLines_increasing)
  then have "sorted_wrt (<) ns"
    by (simp add: ns' sorted_wrt_map)
  moreover have "\<forall>n\<in>set ns. 1 \<le> n \<and> n \<le> int (length (srcLines (files ! i)))"
    using collectLines_bounds [of _ "files ! i"] by (auto simp add: ns')
  ultimately show ?thesis
    using i f by auto
qed

theorem per_source_order_witness:
  "distinct (map srcName [srcA, srcB]) \<and>
   Entry 3 ''x'' [(''B'', [1]), (''A'', [1, 3])] \<in> set (DupDetectFiles None [1, 0] [] 1 False [srcA, srcB]) \<and>
   (''A'', [1, 3]) \<in> set [(''B'', [1]), (''A'', [1, 3 :: int])] \<and>
   sorted_wrt (<) [1, 3 :: int] \<and>
   (\<exists>src\<in>set [srcA, srcB]. srcName src = ''A'' \<and>
      (\<forall>n\<in>set [1, 3]. 1 \<le> n \<and> n \<le> int (length (srcLines src))))"
proof -
  have a: "distinct (map srcName [srcA, srcB])"
    by (simp add: srcA_def srcB_def)
  have b: "Entry 3 ''x'' [(''B'', [1]), (''A'', [1, 3])]
      \<in> set (DupDetectFiles None [1, 0] [] 1 False [srcA, srcB])"
    by (simp add: run_defs srcA_def srcB_def)
  have c: "(''A'', [1, 3]) \<in> set [(''B'', [1]), (''A'', [1, 3 :: int])]"
    by simp
  from per_source_order [OF a b c] a b c show ?thesis by blast
qed

text \<open>
  C7, as stated, fails without distinct names: the same one-line file named twice gives two
  readers that both send line 1 under the same name.
\<close>

theorem per_source_order_counterexample:
  "DupDetectFiles None [] [] 1 False [srcB, srcB] = [Separator, Entry 2 ''x'' [(''B'', [1, 1])]] \<and>
   \<not> sorted_wrt (<) [1, 1 :: int]"
  by (simp add: run_defs srcB_def)


subsection \<open>Text of the report\<close>

lemma emitted_keys:
  "lineText ` set (emitted files)
     = (\<Union>src\<in>set files. if openFails src then {} else getKey ` set (srcLines src))"
  by (induction files) (simp_all add: emitted_def image_Un collectLines_keys)

lemma key_present:
  "k \<in> lineText ` set (emitted files) \<Longrightarrow> \<exists>d. map_of (aggregate (arrivals sched files)) k = Some d"
  using aggregate_None [of "arrivals sched files" k] by (auto simp add: set_arrivals)

text \<open>
  C8, as amended. The text printed for an entry is the key of a line that was read: the
  line itself when it is shorter than 32 bytes, and the 64-character hexadecimal digest
  when it has 32 bytes or more. Every line read from a source is reported under its key
  exactly when the number of records sent with that key is greater than the threshold.
\<close>

theorem report_text_is_key:
  "(\<forall>c k locs. Entry c k locs \<in> set (DupDetectFiles prevLineDatum sched stdin threshold False files) \<longrightarrow>
      (\<exists>src\<in>set files. \<not> openFails src \<and>
         (\<exists>l\<in>set (srcLines src).
            (length l < 32 \<and> k = l) \<or> (32 \<le> length l \<and> k = hashString l \<and> length k = 64)))) \<and>
   (\<forall>src\<in>set files. \<not> openFails src \<longrightarrow>
      (\<forall>l\<in>set (srcLines src).
         (\<exists>c locs. Entry c (getKey l) locs \<in> set (DupDetectFiles prevLineDatum sched stdin threshold False files))
           \<longleftrightarrow> threshold < int (length (filter (\<lambda>r. lineText r = getKey l) (emitted files)))))"
proof (intro conjI allI impI ballI)
  fix c k locs
  assume "Entry c k locs \<in> set (DupDetectFiles prevLineDatum sched stdin threshold False files)"
  then obtain d where "map_of (aggregate (arrivals sched files)) k = Some d"
    by (auto simp add: Entry_in_run)
  then have "k \<in> lineText ` set (emitted files)"
    using aggregate_None [of "arrivals sched files" k] by (simp add: set_arrivals)
  then obtain src l where src: "src \<in> set files" "\<not> openFails src"
    and l: "l \<in> set (srcLines src)" "k = getKey l"
    by (auto simp add: emitted_keys split: if_splits)
  have "(length l < 32 \<and> getKey l = l) \<or> (32 \<le> length l \<and> getKey l = hashString l \<and> length (getKey l) = 64)"
    by (simp add: getKey_def length_hashString)
  with src l show "\<exists>src\<in>set files. \<not> openFails src \<and>
         (\<exists>l\<in>set (srcLines src).
            (length l < 32 \<and> k = l) \<or> (32 \<le> length l \<and> k = hashString l \<and> length k = 64))"
    by blast
next
  fix src l
  assume src: "src \<in> set files" "\<not> openFails src" and l: "l \<in> set (srcLines src)"
  then have "getKey l \<in> lineText ` set (emitted files)"
    by (auto simp add: emitted_keys)
  from key_present [OF this, of sched] obtain d where
    d: "map_of (aggregate (arrivals sched files)) (getKey l) = Some d" by blast
  from aggregate_count [OF d]
  have "count d = int (length (filter (\<lambda>r. lineText r = getKey l) (emitted files)))"
    by (simp add: length_filter_arrivals)
  with d show "(\<exists>c locs. Entry c (getKey l) locs \<in> set (DupDetectFiles prevLineDatum sched stdin threshold False files))
           \<longleftrightarrow> threshold < int (length (filter (\<lambda>r. lineText r = getKey l) (emitted files)))"
    by (auto simp add: Entry_in_run)
qed

theorem report_text_is_key_witness:
  "Entry 3 ''x'' [(''B'', [1]), (''A'', [1, 3])] \<in> set (DupDetectFiles None [1, 0] [] 1 False [srcA, srcB]) \<and>
   (\<exists>src\<in>set [srcA, srcB]. \<not> openFails src \<and>
      (\<exists>l\<in>set (srcLines src).
         (length l < 32 \<and> ''x'' = l) \<or> (32 \<le> length l \<and> ''x'' = hashString l \<and> length ''x'' = 64))) \<and>
   srcLong \<in> set [srcLong] \<and> \<not> openFails srcLong \<and>
   ''0123456789abcdef0123456789abcdef'' \<in> set (srcLines srcLong) \<and>
   (\<exists>c locs. Entry c (getKey ''0123456789abcdef0123456789abcdef'') locs
       \<in> set (DupDetectFiles None [] [] 1 False [srcLong]))"
proof -
  have a: "Entry 3 ''x'' [(''B'', [1]), (''A'', [1, 3])]
      \<in> set (DupDetectFiles None [1, 0] [] 1 False [srcA, srcB])"
    by (simp add: run_defs srcA_def srcB_def)
  have b: "srcLong \<in> set [srcLong]" "\<not> openFails srcLong"
    "''0123456789abcdef0123456789abcdef'' \<in> set (srcLines srcLong)"
    by (simp_all add: openFails_def srcLong_def)
  have n: "(1::int) < int (length (filter (\<lambda>r. lineText r = getKey ''0123456789abcdef0123456789abcdef'')
      (emitted [srcLong])))"
    by (simp add: emitted_def collectLines_def srcLong_def)
  from a report_text_is_key [where prevLineDatum = None and sched = "[1, 0]" and stdin = "[]" and threshold = 1
      and files = "[srcA, srcB]"]
  have "\<exists>src\<in>set [srcA, srcB]. \<not> openFails src \<and>
      (\<exists>l\<in>set (srcLines src).
         (length l < 32 \<and> ''x'' = l) \<or> (32 \<le> length l \<and> ''x'' = hashString l \<and> length ''x'' = 64))"
    by blast
  moreover from b n report_text_is_key [where prevLineDatum = None and sched = "[]" and stdin = "[]" and threshold = 1
      and files = "[srcLong]"]
  have "\<exists>c locs. Entry c (getKey ''0123456789abcdef0123456789abcdef'') locs
       \<in> set (DupDetectFiles None [] [] 1 False [srcLong])"
    by blast
  ultimately show ?thesis using a b by blast
qed

text \<open>
  C8, as stated, fails on a long line: a file holding twice the same line of 32 bytes is
  reported under the digest of the line, which is not the line.
\<close>

theorem report_text_counterexample:
  "DupDetectFiles None [] [] 1 False [srcLong]
     = [Separator, Entry 2 (hashString ''0123456789abcdef0123456789abcdef'') [(''L'', [1, 2])]] \<and>
   hashString ''0123456789abcdef0123456789abcdef'' \<noteq> ''0123456789abcdef0123456789abcdef''"
proof
  show "DupDetectFiles None [] [] 1 False [srcLong]
     = [Separator, Entry 2 (hashString ''0123456789abcdef0123456789abcdef'') [(''L'', [1, 2])]]"
    by (simp add: run_defs srcLong_def)
  show "hashString ''0123456789abcdef0123456789abcdef'' \<noteq> ''0123456789abcdef0123456789abcdef''"
  proof
    assume "hashString ''0123456789abcdef0123456789abcdef'' = ''0123456789abcdef0123456789abcdef''"
    then have "length (hashString ''0123456789abcdef0123456789abcdef'')
        = length ''0123456789abcdef0123456789abcdef''"
      by (rule arg_cong)
    then show False
      by (simp add: length_hashString)
  qed
qed


subsection \<open>Repeated runs\<close>

lemma lineNums_aggregate:
  "map_of (aggregate rs) k = Some d \<Longrightarrow> lineNums (locations d) f = linesAt k f rs"
  using aggregate_locations [of rs k d f] by (simp add: lineNums_def)

lemma mset_linesAt_arrivals:
  "mset (linesAt k f (arrivals s1 files)) = mset (linesAt k f (arrivals s2 files))"
  by (simp add: linesAt_def mset_arrivals)

lemma same_source_arrivals:
  assumes "distinct (map srcName files)"
  shows "filter (\<lambda>r. fileName r = f) (arrivals s1 files) = filter (\<lambda>r. fileName r = f) (arrivals s2 files)"
proof (cases "f \<in> srcName ` set files")
  case False
  then show ?thesis by (simp add: arrivals_of_nobody)
next
  case True
  then obtain i where i: "i < length files" and f: "f = srcName (files ! i)"
    by (auto simp add: in_set_conv_nth)
  from arrivals_of_source [OF assms i, of s1] arrivals_of_source [OF assms i, of s2] f
  show ?thesis by simp
qed

lemma entries_agree:
  assumes d1: "map_of (aggregate (arrivals s1 files)) k = Some d1"
  shows "\<exists>d2. map_of (aggregate (arrivals s2 files)) k = Some d2 \<and> count d2 = count d1"
proof -
  from d1 have "k \<in> lineText ` set (emitted files)"
    using aggregate_None [of "arrivals s1 files" k] by (simp add: set_arrivals)
  from key_present [OF this, of s2] obtain d2 where
    d2: "map_of (aggregate (arrivals s2 files)) k = Some d2" by blast
  from aggregate_count [OF d1] aggregate_count [OF d2] have "count d2 = count d1"
    by (simp add: length_filter_arrivals)
  with d2 show ?thesis by blast
qed

lemma locations_agree:
  assumes d1: "map_of (aggregate (arrivals s1 files)) k = Some d1"
    and d2: "map_of (aggregate (arrivals s2 files)) k = Some d2"
  shows "mset (lineNums (locations d1) f) = mset (lineNums (locations d2) f)"
    and "fst ` set (locations d1) = fst ` set (locations d2)"
    and "distinct (map srcName files) \<Longrightarrow> map_of (locations d1) = map_of (locations d2)"
proof -
  have m: "mset (linesAt k g (arrivals s1 files)) = mset (linesAt k g (arrivals s2 files))" for g
    by (rule mset_linesAt_arrivals)
  then show "mset (lineNums (locations d1) f) = mset (lineNums (locations d2) f)"
    by (simp add: lineNums_aggregate [OF d1] lineNums_aggregate [OF d2])
  have e: "linesAt k g (arrivals s1 files) = [] \<longleftrightarrow> linesAt k g (arrivals s2 files) = []" for g
    using m [of g] by (metis mset_zero_iff)
  have "dom (map_of (locations d1)) = dom (map_of (locations d2))"
    using e by (auto simp add: aggregate_locations [OF d1] aggregate_locations [OF d2] dom_def)
  then show "fst ` set (locations d1) = fst ` set (locations d2)"
    by (simp add: dom_map_of_conv_image_fst)
  assume "distinct (map srcName files)"
  then have "linesAt k g (arrivals s1 files) = linesAt k g (arrivals s2 files)" for g
    using same_source_arrivals [of files g s1 s2] by (simp add: linesAt_two_filters)
  then show "map_of (locations d1) = map_of (locations d2)"
    by (simp add: fun_eq_iff aggregate_locations [OF d1] aggregate_locations [OF d2])
qed

lemma count_list_once:
  "count_list xs x = 1 \<Longrightarrow> \<exists>i<length xs. xs ! i = x \<and> (\<forall>j<length xs. j \<noteq> i \<longrightarrow> xs ! j \<noteq> x)"
proof (induction xs)
  case Nil
  then show ?case by simp
next
  case (Cons y ys)
  show ?case
  proof (cases "y = x")
    case True
    with Cons.prems have "count_list ys x = 0" by simp
    then have "x \<notin> set ys" by (simp add: count_list_0_iff)
    then have "\<forall>j<length (y # ys). j \<noteq> 0 \<longrightarrow> (y # ys) ! j \<noteq> x"
      by (auto simp add: nth_Cons split: nat.splits)
    with True show ?thesis by (intro exI [of _ 0]) simp
  next
    case False
    with Cons.prems have "count_list ys x = 1" by simp
    from Cons.IH [OF this] obtain i where
      i: "i < length ys" "ys ! i = x" "\<forall>j<length ys. j \<noteq> i \<longrightarrow> ys ! j \<noteq> x" by blast
    from i(3) False have "\<forall>j<length (y # ys). j \<noteq> Suc i \<longrightarrow> (y # ys) ! j \<noteq> x"
      by (auto simp add: nth_Cons split: nat.splits)
    with i(1,2) show ?thesis by (intro exI [of _ "Suc i"]) simp
  qed
qed

lemma arrivals_of_name_given_once:
  assumes "i < length files"
    and "\<forall>j<length files. j \<noteq> i \<longrightarrow> srcName (files ! j) \<noteq> srcName (files ! i)"
  shows "filter (\<lambda>r. fileName r = srcName (files ! i)) (arrivals sched files)
           = snd (collectLines (files ! i))"
proof -
  let ?P = "\<lambda>r. fileName r = srcName (files ! i)"
  let ?qs = "map (\<lambda>f. snd (collectLines f)) files"
  have others: "\<forall>j<length ?qs. j \<noteq> i \<longrightarrow> filter ?P (?qs ! j) = []"
    using assms(2) by (auto simp add: filter_empty_conv dest: collectLines_fileName)
  from assms(1) have "i < length ?qs" by simp
  from filter_deliver_single [OF this others, of sched]
  have "filter ?P (arrivals sched files) = filter ?P (snd (collectLines (files ! i)))"
    using assms(1) by (simp add: arrivals_def)
  moreover have "filter ?P (snd (collectLines (files ! i))) = snd (collectLines (files ! i))"
    by (auto simp add: filter_id_conv dest: collectLines_fileName)
  ultimately show ?thesis by simp
qed

lemma same_arrivals_of_name_given_once:
  assumes "count_list (map srcName files) f = 1"
  shows "filter (\<lambda>r. fileName r = f) (arrivals s1 files) = filter (\<lambda>r. fileName r = f) (arrivals s2 files)"
proof -
  from count_list_once [OF assms] obtain i where
    i: "i < length files" "srcName (files ! i) = f"
      "\<forall>j<length files. j \<noteq> i \<longrightarrow> srcName (files ! j) \<noteq> f"
    by auto
  from i have "\<forall>j<length files. j \<noteq> i \<longrightarrow> srcName (files ! j) \<noteq> srcName (files ! i)"
    by simp
  from arrivals_of_name_given_once [OF i(1) this, of s1]
    arrivals_of_name_given_once [OF i(1) this, of s2] i(2)
  show ?thesis by simp
qed

lemma location_list_agrees:
  assumes d1: "map_of (aggregate (arrivals s1 files)) k = Some d1"
    and d2: "map_of (aggregate (arrivals s2 files)) k = Some d2"
    and once: "count_list (map srcName files) f = 1"
  shows "lineNums (locations d1) f = lineNums (locations d2) f"
  using same_arrivals_of_name_given_once [OF once, of s1 s2]
  by (simp add: lineNums_aggregate [OF d1] lineNums_aggregate [OF d2] linesAt_two_filters)

text \<open>
  Two readings of one input, with standard input named at most once, hand every reader
  the same lines, so the readers print and send the same.
\<close>

lemma readings_collect_alike:
  assumes once: "count_list names ''stdin'' \<le> 1"
    and r1: "reading w names files1" and r2: "reading w names files2"
  shows "map collectLines files1 = map collectLines files2"
proof (rule nth_equalityI)
  from r1 r2 have len: "length files1 = length names" "length files2 = length names"
    by (auto simp add: reading_def dest: arg_cong [where f = length])
  then show "length (map collectLines files1) = length (map collectLines files2)"
    by simp
  fix i
  assume "i < length (map collectLines files1)"
  with len have i: "i < length files1" "i < length files2" "i < length names" by simp_all
  let ?a = "files1 ! i" and ?b = "files2 ! i"
  from r1 i have na: "srcName ?a = names ! i"
    by (auto simp add: reading_def dest: arg_cong [where f = "\<lambda>xs. xs ! i"])
  from r2 i have nb: "srcName ?b = names ! i"
    by (auto simp add: reading_def dest: arg_cong [where f = "\<lambda>xs. xs ! i"])
  from i have ma: "?a \<in> set files1" and mb: "?b \<in> set files2" by simp_all
  have "collectLines ?a = collectLines ?b"
  proof (cases "names ! i = ''stdin''")
    case True
    with i have "''stdin'' \<in> set names" by (metis nth_mem)
    then have "count_list names ''stdin'' \<noteq> 0" by (simp add: count_list_0_iff)
    with once have one: "count_list names ''stdin'' = 1" by simp
    from r1 ma na True one have "srcLines ?a = stdinLines w"
      by (auto simp add: reading_def)
    moreover from r2 mb nb True one have "srcLines ?b = stdinLines w"
      by (auto simp add: reading_def)
    ultimately show ?thesis using na nb True by (simp add: collectLines_def)
  next
    case False
    from r1 ma na False have a: "case openFile w (names ! i) of
        None \<Rightarrow> \<not> srcOpens ?a | Some ls \<Rightarrow> srcOpens ?a \<and> srcLines ?a = ls"
      by (auto simp add: reading_def)
    from r2 mb nb False have b: "case openFile w (names ! i) of
        None \<Rightarrow> \<not> srcOpens ?b | Some ls \<Rightarrow> srcOpens ?b \<and> srcLines ?b = ls"
      by (auto simp add: reading_def)
    from a b na nb False show ?thesis
      by (cases "openFile w (names ! i)") (simp_all add: collectLines_def)
  qed
  with i show "map collectLines files1 ! i = map collectLines files2 ! i" by simp
qed

lemma readings_arrive_alike:
  assumes "count_list names ''stdin'' \<le> 1" "reading w names files1" "reading w names files2"
  shows "arrivals sched files2 = arrivals sched files1"
proof -
  from readings_collect_alike [OF assms]
  have "map snd (map collectLines files1) = map snd (map collectLines files2)" by simp
  then show ?thesis by (simp add: arrivals_def comp_def)
qed

text \<open>
  C9, as amended. Two runs over the same input in which standard input is named at most
  once, under any two schedules, print entries for the same keys with the same counts;
  an entry names the same sources in both runs and stores for each source the same line
  numbers up to their order. The location list of a source whose name is given once is
  the same in both runs, and when the names are pairwise distinct all of them are.
\<close>

theorem repeated_runs_agree:
  "count_list names ''stdin'' \<le> 1 \<and> reading w names files \<and> reading w names files' \<longrightarrow>
   (\<forall>c k. (\<exists>locs. Entry c k locs
               \<in> set (DupDetectFiles prevLineDatum sched (stdinLines w) threshold False files))
       \<longleftrightarrow> (\<exists>locs. Entry c k locs
               \<in> set (DupDetectFiles prevLineDatum sched' (stdinLines w) threshold False files'))) \<and>
   (\<forall>c1 c2 k l1 l2.
       Entry c1 k l1 \<in> set (DupDetectFiles prevLineDatum sched (stdinLines w) threshold False files) \<and>
       Entry c2 k l2 \<in> set (DupDetectFiles prevLineDatum sched' (stdinLines w) threshold False files') \<longrightarrow>
         c1 = c2 \<and> fst ` set l1 = fst ` set l2 \<and>
         (\<forall>f. mset (lineNums l1 f) = mset (lineNums l2 f)) \<and>
         (\<forall>f. count_list names f = 1 \<longrightarrow> lineNums l1 f = lineNums l2 f) \<and>
         (distinct names \<longrightarrow> map_of l1 = map_of l2))"
proof (intro impI conjI allI)
  assume h: "count_list names ''stdin'' \<le> 1 \<and> reading w names files \<and> reading w names files'"
  then have same: "arrivals sched' files' = arrivals sched' files"
    using readings_arrive_alike [of names w files files' sched'] by blast
  from h have names: "map srcName files = names"
    by (simp add: reading_def)
  {
    fix c k
    show "(\<exists>locs. Entry c k locs
               \<in> set (DupDetectFiles prevLineDatum sched (stdinLines w) threshold False files))
       \<longleftrightarrow> (\<exists>locs. Entry c k locs
               \<in> set (DupDetectFiles prevLineDatum sched' (stdinLines w) threshold False files'))"
      using entries_agree [of sched files k _ sched'] entries_agree [of sched' files k _ sched]
      by (auto simp add: Entry_in_run same)
  next
    fix c1 c2 k l1 l2
    assume "Entry c1 k l1 \<in> set (DupDetectFiles prevLineDatum sched (stdinLines w) threshold False files) \<and>
       Entry c2 k l2 \<in> set (DupDetectFiles prevLineDatum sched' (stdinLines w) threshold False files')"
    then obtain d1 d2 where
      d1: "map_of (aggregate (arrivals sched files)) k = Some d1" "c1 = count d1" "l1 = locations d1"
      and d2: "map_of (aggregate (arrivals sched' files)) k = Some d2" "c2 = count d2" "l2 = locations d2"
      by (auto simp add: Entry_in_run same)
    from entries_agree [OF d1(1), of sched'] d1 d2 show "c1 = c2" by auto
    from locations_agree(2) [OF d1(1) d2(1)] d1 d2 show "fst ` set l1 = fst ` set l2" by simp
    from locations_agree(1) [OF d1(1) d2(1)] d1 d2
    show "mset (lineNums l1 f) = mset (lineNums l2 f)" for f by simp
    from location_list_agrees [OF d1(1) d2(1)] d1 d2 names
    show "lineNums l1 f = lineNums l2 f" if "count_list names f = 1" for f using that by simp
    from locations_agree(3) [OF d1(1) d2(1)] d1 d2 names
    show "map_of l1 = map_of l2" if "distinct names" using that by simp
  }
qed

theorem repeated_runs_agree_witness:
  "count_list [''A'', ''B''] ''stdin'' \<le> 1 \<and> reading worldAB [''A'', ''B''] [srcA, srcB] \<and>
   Entry 3 ''x'' [(''B'', [1]), (''A'', [1, 3])]
      \<in> set (DupDetectFiles None [1, 0] (stdinLines worldAB) 1 False [srcA, srcB]) \<and>
   Entry 3 ''x'' [(''A'', [1, 3]), (''B'', [1])]
      \<in> set (DupDetectFiles None [] (stdinLines worldAB) 1 False [srcA, srcB]) \<and>
   count_list [''A'', ''B''] ''A'' = 1 \<and> distinct [''A'', ''B''] \<and>
   lineNums [(''B'', [1]), (''A'', [1, 3])] ''A'' = lineNums [(''A'', [1, 3]), (''B'', [1])] ''A'' \<and>
   map_of [(''B'', [1]), (''A'', [1, 3 :: int])] = map_of [(''A'', [1, 3]), (''B'', [1])]"
proof -
  have h: "count_list [''A'', ''B''] ''stdin'' \<le> 1 \<and> reading worldAB [''A'', ''B''] [srcA, srcB] \<and>
      reading worldAB [''A'', ''B''] [srcA, srcB]"
    by (simp add: reading_def worldAB_def srcA_def srcB_def)
  have a: "Entry 3 ''x'' [(''B'', [1]), (''A'', [1, 3])]
      \<in> set (DupDetectFiles None [1, 0] (stdinLines worldAB) 1 False [srcA, srcB])"
    and b: "Entry 3 ''x'' [(''A'', [1, 3]), (''B'', [1])]
      \<in> set (DupDetectFiles None [] (stdinLines worldAB) 1 False [srcA, srcB])"
    by (simp_all add: run_defs srcA_def srcB_def)
  have c: "count_list [''A'', ''B''] ''A'' = 1" "distinct [''A'', ''B'']"
    by simp_all
  from h a b c repeated_runs_agree [where names = "[''A'', ''B'']" and w = worldAB
      and files = "[srcA, srcB]" and files' = "[srcA, srcB]" and prevLineDatum = None
      and sched = "[1, 0]" and sched' = "[]" and threshold = 1]
  show ?thesis by blast
qed

text \<open>
  C9, as stated, fails when a name is given twice: with one two-line file named twice,
  two schedules store the line numbers of the shared name in different orders.
\<close>

theorem repeated_runs_counterexample:
  "DupDetectFiles None [] [] 1 False [srcC, srcC]
     = [Separator, Entry 4 ''x'' [(''C'', [1, 2, 1, 2])]] \<and>
   DupDetectFiles None [0, 1] [] 1 False [srcC, srcC]
     = [Separator, Entry 4 ''x'' [(''C'', [1, 1, 2, 2])]] \<and>
   [1, 2, 1, 2] \<noteq> [1, 1, 2, 2 :: int]"
  by (simp add: run_defs srcC_def)

text \<open>
  With standard input named twice not even the line numbers are determined: on the
  same two lines of standard input, one reader may obtain both lines, or each reader
  one of them.
\<close>

lemma stdin_named_twice_is_undetermined:
  "reading worldStdin [''stdin'', ''stdin''] [srcStdinAll, srcStdinNone] \<and>
   reading worldStdin [''stdin'', ''stdin''] [srcStdinHalf, srcStdinHalf] \<and>
   DupDetectFiles None [] (stdinLines worldStdin) 1 False [srcStdinAll, srcStdinNone]
     = [Separator, Entry 2 ''x'' [(''stdin'', [1, 2])]] \<and>
   DupDetectFiles None [] (stdinLines worldStdin) 1 False [srcStdinHalf, srcStdinHalf]
     = [Separator, Entry 2 ''x'' [(''stdin'', [1, 1])]]"
  by (simp add: reading_def worldStdin_def srcStdinAll_def srcStdinNone_def srcStdinHalf_def
      run_defs)

subsection \<open>Sorted single-file path: the empty line\<close>

lemma sortedLoop_snoc: "sortedLoop prevLineDatum f (ls @ [l]) = sortedStep f (sortedLoop prevLineDatum f ls) l"
  by (simp add: sortedLoop_def)

lemma sortedLoop_append:
  "sortedLoop prevLineDatum f (ls @ ls') = foldl (sortedStep f) (sortedLoop prevLineDatum f ls) ls'"
  by (simp add: sortedLoop_def)

lemma sortedLoop_empty_run:
  "sortedLoop prevLineDatum f (replicate (Suc n) '''')
     = ([('''', \<lparr>locations = [(f, [1])], count = int n + 1\<rparr>)], int n + 2, '''', prevLineDatum, [], False)"
proof (induction n)
  case 0
  show ?case by (simp add: sortedLoop_def sortedStep_def)
next
  case (Suc n)
  have more: "replicate (Suc (Suc n)) '''' = replicate (Suc n) '''' @ ['''']"
    by (simp only: replicate_append_same) simp
  have "sortedLoop prevLineDatum f (replicate (Suc (Suc n)) '''')
      = sortedStep f (sortedLoop prevLineDatum f (replicate (Suc n) '''')) ''''"
    by (subst more) (rule sortedLoop_snoc)
  with Suc show ?case by (simp add: sortedStep_def)
qed

lemma map_of_refreshed:
  "map_of (map (\<lambda>(k, d). if P k then (k, g d) else (k, d)) xs) k
     = map_option (\<lambda>d. if P k then g d else d) (map_of xs k)"
  by (induction xs) auto

text \<open>
  The empty line is never among the keys that share the map of \<^verbatim>\<open>prevLineDatum\<close>,
  because a run is closed only under a previous line that is not empty; so no step
  changes the locations of its entry.
\<close>

lemma sortedStep_keeps_empty_entry:
  assumes "map_of (fst st) '''' = Some d" and "'''' \<notin> set (sharedKeys st)"
  shows "\<exists>d'. map_of (fst (sortedStep f st l)) '''' = Some d' \<and> locations d' = locations d"
    and "'''' \<notin> set (sharedKeys (sortedStep f st l))"
proof -
  obtain counts i prev p shared panicked where st: "st = (counts, i, prev, p, shared, panicked)"
    by (cases st)
  with assms have e: "map_of counts '''' = Some d" and s: "'''' \<notin> set shared"
    by (simp_all add: sharedKeys_def)
  have "(\<exists>d'. map_of (fst (sortedStep f st l)) '''' = Some d' \<and> locations d' = locations d) \<and>
      '''' \<notin> set (sharedKeys (sortedStep f st l))"
  proof (cases "map_of counts l")
    case None
    with e have l: "l \<noteq> ''''" by auto
    show ?thesis
    proof (cases p)
      case None
      with \<open>map_of counts l = None\<close> e s l st show ?thesis
        by (simp add: sortedStep_def sharedKeys_def update_conv')
    next
      case (Some p0)
      with \<open>map_of counts l = None\<close> e s l st show ?thesis
        by (simp add: sortedStep_def sharedKeys_def Let_def update_conv' map_of_refreshed)
    qed
  next
    case (Some d0)
    with e s st show ?thesis
      by (cases "l = ''''") (simp_all add: sortedStep_def sharedKeys_def update_conv')
  qed
  then show "\<exists>d'. map_of (fst (sortedStep f st l)) '''' = Some d' \<and> locations d' = locations d"
    and "'''' \<notin> set (sharedKeys (sortedStep f st l))"
    by simp_all
qed

lemma sortedLoop_keeps_empty_entry:
  "map_of (fst st) '''' = Some d \<Longrightarrow> '''' \<notin> set (sharedKeys st) \<Longrightarrow>
   \<exists>d'. map_of (fst (foldl (sortedStep f) st ls)) '''' = Some d' \<and> locations d' = locations d"
proof (induction ls arbitrary: st d)
  case Nil
  then show ?case by simp
next
  case (Cons l ls)
  from sortedStep_keeps_empty_entry(1) [OF Cons.prems, of f l] obtain d1 where
    d1: "map_of (fst (sortedStep f st l)) '''' = Some d1" "locations d1 = locations d"
    by blast
  from sortedStep_keeps_empty_entry(2) [OF Cons.prems, of f l]
  have "'''' \<notin> set (sharedKeys (sortedStep f st l))" .
  from Cons.IH [OF d1(1) this] d1(2) show ?case by simp
qed

text \<open>
  C10. The empty string is also the value of \<^verbatim>\<open>prevInputText\<close> before any run is open.
  After a run of empty lines and the first line of the next run, the entry of the empty
  line holds its start line only and the next run has begun, \<^verbatim>\<open>prevLineDatum\<close> being
  untouched; whatever follows, and whatever \<^verbatim>\<open>prevLineDatum\<close> holds, the entry of the
  empty line never gets an end line.
\<close>

theorem empty_line_run_never_closed:
  "0 < n \<and> x \<noteq> '''' \<longrightarrow>
     sortedLoop prevLineDatum f (replicate n '''' @ [x])
       = ([('''', \<lparr>locations = [(f, [1])], count = int n\<rparr>),
           (x, \<lparr>locations = [(f, [int n + 1])], count = 1\<rparr>)], int n + 2, x, prevLineDatum, [], False) \<and>
     (\<exists>d. map_of (fst (sortedLoop prevLineDatum f (replicate n '''' @ x # rest))) '''' = Some d \<and>
          locations d = [(f, [1])])"
proof (intro impI conjI)
  assume a: "0 < n \<and> x \<noteq> ''''"
  then obtain m where n: "n = Suc m" by (cases n) auto
  from a show first: "sortedLoop prevLineDatum f (replicate n '''' @ [x])
       = ([('''', \<lparr>locations = [(f, [1])], count = int n\<rparr>),
           (x, \<lparr>locations = [(f, [int n + 1])], count = 1\<rparr>)], int n + 2, x, prevLineDatum, [], False)"
    unfolding n sortedLoop_snoc sortedLoop_empty_run
    by (simp add: sortedStep_def)
  have "replicate n '''' @ x # rest = (replicate n '''' @ [x]) @ rest" by simp
  then have "sortedLoop prevLineDatum f (replicate n '''' @ x # rest)
      = foldl (sortedStep f) (sortedLoop prevLineDatum f (replicate n '''' @ [x])) rest"
    by (simp only: sortedLoop_append)
  moreover have "map_of (fst (sortedLoop prevLineDatum f (replicate n '''' @ [x]))) ''''
      = Some \<lparr>locations = [(f, [1])], count = int n\<rparr>"
    and "'''' \<notin> set (sharedKeys (sortedLoop prevLineDatum f (replicate n '''' @ [x])))"
    by (simp_all add: first sharedKeys_def)
  ultimately show "\<exists>d. map_of (fst (sortedLoop prevLineDatum f (replicate n '''' @ x # rest))) '''' = Some d \<and>
          locations d = [(f, [1])]"
    using sortedLoop_keeps_empty_entry [of "sortedLoop prevLineDatum f (replicate n '''' @ [x])" _ f rest]
    by fastforce
qed

theorem empty_line_run_never_closed_witness:
  "0 < (2::nat) \<and> ''a'' \<noteq> '''' \<and>
   sortedLoop None ''sortedb'' ['''', '''', ''a'']
     = ([('''', \<lparr>locations = [(''sortedb'', [1])], count = 2\<rparr>),
         (''a'', \<lparr>locations = [(''sortedb'', [3])], count = 1\<rparr>)], 4, ''a'', None, [], False) \<and>
   (\<exists>d. map_of (fst (sortedLoop None ''sortedb'' ['''', '''', ''a'', ''a'', ''b''])) '''' = Some d \<and>
        locations d = [(''sortedb'', [1])])"
proof -
  have h: "0 < (2::nat) \<and> ''a'' \<noteq> ''''" by simp
  have r: "replicate 2 '''' = ['''', '''']" by (simp add: numeral_2_eq_2)
  from h empty_line_run_never_closed [where n = 2 and x = "''a''" and prevLineDatum = None
      and f = "''sortedb''" and rest = "[''a'', ''b'']"]
  show ?thesis by (simp add: r)
qed



end
